theory Spec2Isabelle
  imports Main "HOL-Library.Multiset" "HOL-Library.Sublist"
begin

section \<open>Strings and paths of the host platform\<close>

text \<open>
  The program is \<^verbatim>\<open>src/index.ts\<close>, run by Node on a POSIX host. JavaScript strings
  are modelled as \<^typ>\<open>string\<close>; the operations the program calls on them are written
  out below. The path separator \<^verbatim>\<open>path.sep\<close> is the slash.
\<close>

definition sep :: char where
  "sep = CHR ''/''"

text \<open>\<^verbatim>\<open>s.startsWith(p)\<close> and \<^verbatim>\<open>s.endsWith(p)\<close>.\<close>

definition startsWith :: "string \<Rightarrow> string \<Rightarrow> bool" where
  "startsWith s p = (take (length p) s = p)"

definition endsWith :: "string \<Rightarrow> string \<Rightarrow> bool" where
  "endsWith s p = (length p \<le> length s \<and> drop (length s - length p) s = p)"

text \<open>
  \<^verbatim>\<open>s.toLowerCase()\<close> on the letters A to Z. No character outside that range lowers to
  a dot, an m or a d, so the test \<^verbatim>\<open>name.toLowerCase().endsWith(".md")\<close> is decided by
  this part of the mapping.
\<close>

definition lower_char :: "char \<Rightarrow> char" where
  "lower_char c =
     (let n = (of_char c :: nat) in if 65 \<le> n \<and> n \<le> 90 then char_of (n + 32) else c)"

definition toLowerCase :: "string \<Rightarrow> string" where
  "toLowerCase s = map lower_char s"

text \<open>
  \<^verbatim>\<open>s.split(path.sep)\<close>: the pieces between the separators, empty pieces included;
  the empty string splits into one empty piece.
\<close>

fun split_go :: "string \<Rightarrow> string \<Rightarrow> string list" where
  "split_go cur [] = [cur]"
| "split_go cur (c # cs) =
     (if c = sep then cur # split_go [] cs else split_go (cur @ [c]) cs)"

definition split_sep :: "string \<Rightarrow> string list" where
  "split_sep s = split_go [] s"

text \<open>Segments joined with the separator.\<close>

fun join_sep :: "string list \<Rightarrow> string" where
  "join_sep [] = []"
| "join_sep [s] = s"
| "join_sep (s # t # ts) = s @ sep # join_sep (t # ts)"

text \<open>
  \<^verbatim>\<open>path.dirname\<close> (POSIX): trailing slashes are skipped, then the path is cut at the
  last slash found at an index of at least 1.
\<close>

fun dirname_scan :: "string \<Rightarrow> nat \<Rightarrow> bool \<Rightarrow> nat option" where
  "dirname_scan p 0 matchedSlash = None"
| "dirname_scan p (Suc i) matchedSlash =
     (if p ! (Suc i) = sep then
        (if \<not> matchedSlash then Some (Suc i) else dirname_scan p i matchedSlash)
      else dirname_scan p i False)"

definition path_dirname :: "string \<Rightarrow> string" where
  "path_dirname p =
     (if p = [] then ''.''
      else let hasRoot = (hd p = sep) in
        (case dirname_scan p (length p - 1) True of
           None \<Rightarrow> (if hasRoot then ''/'' else ''.'')
         | Some e \<Rightarrow> (if hasRoot \<and> e = 1 then ''//'' else take e p)))"

text \<open>
  \<^verbatim>\<open>path.normalize\<close> and \<^verbatim>\<open>path.join\<close> of two arguments (POSIX). The normaliser drops
  empty and single-dot segments and resolves double-dot segments against the segments
  kept so far; a relative path may keep leading double dots, an absolute one may not.
\<close>

fun normalizeString :: "bool \<Rightarrow> string list \<Rightarrow> string list \<Rightarrow> string list" where
  "normalizeString allowAboveRoot res [] = res"
| "normalizeString allowAboveRoot res (s # ss) =
     (if s = [] \<or> s = ''.'' then normalizeString allowAboveRoot res ss
      else if s = ''..'' then
        (if res \<noteq> [] \<and> last res \<noteq> ''..'' then normalizeString allowAboveRoot (butlast res) ss
         else if allowAboveRoot then normalizeString allowAboveRoot (res @ [s]) ss
         else normalizeString allowAboveRoot res ss)
      else normalizeString allowAboveRoot (res @ [s]) ss)"

definition path_normalize :: "string \<Rightarrow> string" where
  "path_normalize p =
     (if p = [] then ''.''
      else let isAbsolute = (hd p = sep);
               trailingSeparator = (last p = sep);
               r = join_sep (normalizeString (\<not> isAbsolute) [] (split_sep p))
           in if r = [] then (if isAbsolute then ''/'' else if trailingSeparator then ''./'' else ''.'')
              else (if isAbsolute then ''/'' else []) @ r @ (if trailingSeparator then ''/'' else []))"

definition path_join :: "string \<Rightarrow> string \<Rightarrow> string" where
  "path_join a b =
     (if a = [] \<and> b = [] then ''.''
      else if a = [] then path_normalize b
      else if b = [] then path_normalize a
      else path_normalize (a @ sep # b))"

text \<open>
  \<^verbatim>\<open>path.relative(from, to)\<close> for absolute arguments, which is how the program calls it
  (both come from \<^verbatim>\<open>path.resolve\<close>): the common leading segments are dropped, every
  remaining segment of \<open>from\<close> becomes a double dot, the remaining segments of \<open>to\<close>
  follow.
\<close>

fun drop_common :: "string list \<Rightarrow> string list \<Rightarrow> string list \<times> string list" where
  "drop_common (x # xs) (y # ys) = (if x = y then drop_common xs ys else (x # xs, y # ys))"
| "drop_common xs ys = (xs, ys)"

definition path_relative :: "string \<Rightarrow> string \<Rightarrow> string" where
  "path_relative from to =
     (if from = to then []
      else let f = normalizeString False [] (split_sep from);
               t = normalizeString False [] (split_sep to)
           in (case drop_common f t of
                 (f', t') \<Rightarrow> join_sep (replicate (length f') ''..'' @ t')))"

section \<open>Configuration\<close>

definition OUTPUT_FILENAME :: string where
  "OUTPUT_FILENAME = ''concatenated_output.md''"

definition DIR_HEADER_PREFIX :: string where
  "DIR_HEADER_PREFIX = ''# Directory:''"

definition FILE_HEADER_PREFIX :: string where
  "FILE_HEADER_PREFIX = ''## File:''"

section \<open>The file system snapshot and the entries\<close>

text \<open>
  A directory entry as \<^verbatim>\<open>fs.readdir\<close> with \<^verbatim>\<open>withFileTypes\<close> reports it, together
  with what a later \<^verbatim>\<open>readdir\<close> of it returns: a directory that lists its children, a
  directory whose listing fails, a regular file, or anything else (a symbolic link, a
  socket, a device), for which both \<^verbatim>\<open>isDirectory()\<close> and \<^verbatim>\<open>isFile()\<close> are false.
\<close>

datatype fsnode =
    Directory string "fsnode list"
  | Unlistable string
  | RegularFile string
  | Special string

fun dirent_name :: "fsnode \<Rightarrow> string" where
  "dirent_name (Directory n cs) = n"
| "dirent_name (Unlistable n) = n"
| "dirent_name (RegularFile n) = n"
| "dirent_name (Special n) = n"

fun dirent_isDirectory :: "fsnode \<Rightarrow> bool" where
  "dirent_isDirectory (Directory n cs) = True"
| "dirent_isDirectory (Unlistable n) = True"
| "dirent_isDirectory (RegularFile n) = False"
| "dirent_isDirectory (Special n) = False"

fun dirent_isFile :: "fsnode \<Rightarrow> bool" where
  "dirent_isFile (RegularFile n) = True"
| "dirent_isFile d = False"

record FileInfo =
  fullPath :: string
  relativePath :: string
  isDirectory :: bool
  name :: string

datatype error = ListingFailed string

section \<open>The scanner\<close>

text \<open>
  \<^verbatim>\<open>Array.prototype.sort\<close> with a comparison function is a stable sort: an insertion
  sort that puts an element in front of the first later element it does not follow. The
  comparison function returns a negative number, zero or a positive number. For a
  comparison function that is not consistent JavaScript leaves the order to the
  implementation; the properties of the order below ask for a consistent one.
\<close>

fun insert_by :: "('a \<Rightarrow> 'a \<Rightarrow> int) \<Rightarrow> 'a \<Rightarrow> 'a list \<Rightarrow> 'a list" where
  "insert_by c x [] = [x]"
| "insert_by c x (y # ys) = (if c x y \<le> 0 then x # y # ys else y # insert_by c x ys)"

fun sort_by :: "('a \<Rightarrow> 'a \<Rightarrow> int) \<Rightarrow> 'a list \<Rightarrow> 'a list" where
  "sort_by c [] = []"
| "sort_by c (x # xs) = insert_by c x (sort_by c xs)"

text \<open>
  The comparison function of the scanner. \<open>localeCompare\<close> stands for
  \<^verbatim>\<open>String.prototype.localeCompare\<close>, the collation of the host, which the program
  calls without a locale.
\<close>

definition compare_dirents :: "(string \<Rightarrow> string \<Rightarrow> int) \<Rightarrow> fsnode \<Rightarrow> fsnode \<Rightarrow> int" where
  "compare_dirents localeCompare a b =
     (if dirent_isDirectory a \<and> \<not> dirent_isDirectory b then - 1
      else if \<not> dirent_isDirectory a \<and> dirent_isDirectory b then 1
      else localeCompare (dirent_name a) (dirent_name b))"

definition mk_info :: "string \<Rightarrow> string \<Rightarrow> fsnode \<Rightarrow> FileInfo" where
  "mk_info dirPath rootDir dirent =
     (let fp = path_join dirPath (dirent_name dirent) in
      \<lparr>fullPath = fp,
       relativePath = path_relative rootDir fp,
       isDirectory = dirent_isDirectory dirent,
       name = dirent_name dirent\<rparr>)"

lemma size_insert_by: "size_list f (insert_by c x xs) = Suc (f x + size_list f xs)"
  by (induction xs) auto

lemma size_sort_by: "size_list f (sort_by c xs) = size_list f xs"
  by (induction xs) (auto simp: size_insert_by)

text \<open>
  \<open>findMarkdownRecursive\<close> takes what sits at \<open>dirPath\<close> in place of reading it; the
  loop over the sorted children is \<open>for_dirents\<close>, with \<open>results\<close> as its variable. A
  failed listing is the exception that \<^verbatim>\<open>await fs.readdir\<close> throws; nothing catches
  it before \<^verbatim>\<open>run\<close>.
\<close>

function findMarkdownRecursive ::
    "(string \<Rightarrow> string \<Rightarrow> int) \<Rightarrow> fsnode \<Rightarrow> string \<Rightarrow> string \<Rightarrow> error + FileInfo list"
  and for_dirents ::
    "(string \<Rightarrow> string \<Rightarrow> int) \<Rightarrow> fsnode list \<Rightarrow> string \<Rightarrow> string \<Rightarrow> FileInfo list
       \<Rightarrow> error + FileInfo list"
where
  "findMarkdownRecursive lc (Directory n cs) dirPath rootDir =
     for_dirents lc (sort_by (compare_dirents lc) cs) dirPath rootDir []"
| "findMarkdownRecursive lc (Unlistable n) dirPath rootDir = Inl (ListingFailed dirPath)"
| "findMarkdownRecursive lc (RegularFile n) dirPath rootDir = Inl (ListingFailed dirPath)"
| "findMarkdownRecursive lc (Special n) dirPath rootDir = Inl (ListingFailed dirPath)"
| "for_dirents lc [] dirPath rootDir results = Inr results"
| "for_dirents lc (dirent # rest) dirPath rootDir results =
     (if dirent_isDirectory dirent then
        (case findMarkdownRecursive lc dirent (path_join dirPath (dirent_name dirent)) rootDir of
           Inl e \<Rightarrow> Inl e
         | Inr subResults \<Rightarrow>
             for_dirents lc rest dirPath rootDir
               ((results @ [mk_info dirPath rootDir dirent]) @ subResults))
      else if dirent_isFile dirent \<and> endsWith (toLowerCase (dirent_name dirent)) ''.md'' then
        for_dirents lc rest dirPath rootDir (results @ [mk_info dirPath rootDir dirent])
      else for_dirents lc rest dirPath rootDir results)"
  by pat_completeness auto
termination
  by (relation "measure (\<lambda>x. case x of
         Inl (lc, d, p, r) \<Rightarrow> 2 * size d
       | Inr (lc, ds, p, r, acc) \<Rightarrow> 2 * size_list size ds + 1)")
     (auto simp: size_sort_by)

section \<open>The assembler\<close>

text \<open>
  The state of the pass over the entries: \<^verbatim>\<open>lastProcessedDirRelative\<close> and the
  fragments pushed to \<^verbatim>\<open>outputContent\<close>. Console output is not part of the model.
\<close>

record assembly =
  lastProcessedDirRelative :: string
  outputContent :: "string list"

definition dir_header :: "string \<Rightarrow> string" where
  "dir_header p = DIR_HEADER_PREFIX @ '' '' @ p @ ''\<newline>\<newline>''"

definition file_header :: "string \<Rightarrow> string" where
  "file_header n = FILE_HEADER_PREFIX @ '' '' @ n @ ''\<newline>\<newline>''"

definition separator :: string where
  "separator = ''\<newline>\<newline>---\<newline>\<newline>''"

definition read_error_text :: "string \<Rightarrow> string" where
  "read_error_text n = ''*Error reading file '' @ n @ ''*\<newline>\<newline>---\<newline>\<newline>''"

text \<open>
  One turn of the inner loop over \<^verbatim>\<open>parentDirParts\<close>: the state is
  \<^verbatim>\<open>cumulativePath\<close> and the fragments; the empty string is the falsy value of the
  conditional expression.
\<close>

definition part_step :: "string \<Rightarrow> string \<Rightarrow> string \<times> string list \<Rightarrow> string \<times> string list" where
  "part_step lastDir part st =
     (case st of (cumulativePath, out) \<Rightarrow>
        (let cumulativePath' = (if cumulativePath \<noteq> [] then path_join cumulativePath part else part)
         in (cumulativePath',
             if \<not> startsWith lastDir cumulativePath' then out @ [dir_header cumulativePath'] else out)))"

text \<open>
  The body of the loop over \<^verbatim>\<open>fileInfos\<close>, in its two statements. The first is
  the conditional that adds directory headers and moves \<^verbatim>\<open>lastProcessedDirRelative\<close>.
\<close>

definition add_directory_headers :: "assembly \<Rightarrow> FileInfo \<Rightarrow> assembly" where
  "add_directory_headers st info =
     (let currentDirRelative = path_dirname (relativePath info) in
      if isDirectory info \<and> relativePath info \<noteq> lastProcessedDirRelative st then
        \<lparr>lastProcessedDirRelative = relativePath info,
         outputContent = outputContent st @ [dir_header (relativePath info)]\<rparr>
      else if \<not> isDirectory info
              \<and> currentDirRelative \<noteq> lastProcessedDirRelative st
              \<and> currentDirRelative \<noteq> ''.'' then
        \<lparr>lastProcessedDirRelative = currentDirRelative,
         outputContent =
           snd (fold (part_step (lastProcessedDirRelative st)) (split_sep currentDirRelative)
                  ([], outputContent st))\<rparr>
      else st)"

text \<open>
  The second adds the file header and the body of a document. \<open>readFile\<close> is
  \<^verbatim>\<open>fs.readFile\<close> with the encoding given: the text of the file, or \<open>None\<close> when the
  read throws.
\<close>

definition add_file :: "(string \<Rightarrow> string option) \<Rightarrow> assembly \<Rightarrow> FileInfo \<Rightarrow> assembly" where
  "add_file readFile st info =
     (if \<not> isDirectory info then
        (let out = outputContent st @ [file_header (name info)] in
         case readFile (fullPath info) of
           Some content \<Rightarrow> st\<lparr>outputContent := (out @ [content]) @ [separator]\<rparr>
         | None \<Rightarrow> st\<lparr>outputContent := out @ [read_error_text (name info)]\<rparr>)
      else st)"

definition process_entry :: "(string \<Rightarrow> string option) \<Rightarrow> assembly \<Rightarrow> FileInfo \<Rightarrow> assembly" where
  "process_entry readFile st info = add_file readFile (add_directory_headers st info) info"

definition initial_assembly :: assembly where
  "initial_assembly = \<lparr>lastProcessedDirRelative = ''.'', outputContent = []\<rparr>"

fun assemble_from :: "(string \<Rightarrow> string option) \<Rightarrow> assembly \<Rightarrow> FileInfo list \<Rightarrow> assembly" where
  "assemble_from readFile st [] = st"
| "assemble_from readFile st (info # infos) =
     assemble_from readFile (process_entry readFile st info) infos"

definition assemble :: "(string \<Rightarrow> string option) \<Rightarrow> FileInfo list \<Rightarrow> string" where
  "assemble readFile fileInfos =
     concat (outputContent (assemble_from readFile initial_assembly fileInfos))"

section \<open>The run\<close>

text \<open>
  What the run reads from its host: the arguments after the script name, the working
  directory, \<^verbatim>\<open>path.resolve\<close>, what \<^verbatim>\<open>fs.stat\<close> finds at a path, the collation,
  \<^verbatim>\<open>fs.readFile\<close>, and whether \<^verbatim>\<open>fs.writeFile\<close> succeeds.
\<close>

datatype stat_result = Found fsnode | ENOENT | StatFailed

record host =
  argv :: "string list"
  cwd :: string
  resolve :: "string \<Rightarrow> string"
  stat :: "string \<Rightarrow> stat_result"
  localeCompare :: "string \<Rightarrow> string \<Rightarrow> int"
  readFile :: "string \<Rightarrow> string option"
  writable :: "string \<Rightarrow> bool"

datatype diagnostic =
    Usage
  | NotADirectory string
  | NotFound string
  | AccessError string
  | ProcessingError

text \<open>
  The run either exits with status 1 after a diagnostic, or writes the output file (path
  and content) and ends normally.
\<close>

datatype outcome = Exit1 diagnostic | Written string string

definition run :: "host \<Rightarrow> outcome" where
  "run h =
     (if length (argv h) \<noteq> 1 then Exit1 Usage
      else let inputDirPath = resolve h (hd (argv h)) in
        (case stat h inputDirPath of
           ENOENT \<Rightarrow> Exit1 (NotFound inputDirPath)
         | StatFailed \<Rightarrow> Exit1 (AccessError inputDirPath)
         | Found node \<Rightarrow>
             if \<not> dirent_isDirectory node then Exit1 (NotADirectory inputDirPath)
             else
               (case findMarkdownRecursive (localeCompare h) node inputDirPath inputDirPath of
                  Inl e \<Rightarrow> Exit1 ProcessingError
                | Inr fileInfos \<Rightarrow>
                    (let finalOutput = assemble (readFile h) fileInfos;
                         outputFilePath = path_join (cwd h) OUTPUT_FILENAME
                     in if writable h outputFilePath then Written outputFilePath finalOutput
                        else Exit1 ProcessingError))))"

section \<open>Notions the properties are stated with\<close>

text \<open>
  Case-sensitive lexical comparison: the code units are compared from the left, a proper
  prefix goes first. Every capital letter precedes every small one.
\<close>

fun code_unit_compare :: "string \<Rightarrow> string \<Rightarrow> int" where
  "code_unit_compare [] [] = 0"
| "code_unit_compare [] (y # ys) = - 1"
| "code_unit_compare (x # xs) [] = 1"
| "code_unit_compare (x # xs) (y # ys) =
     (if (of_char x :: nat) < of_char y then - 1
      else if (of_char y :: nat) < of_char x then 1
      else code_unit_compare xs ys)"

text \<open>
  The collation that \<^verbatim>\<open>localeCompare\<close> applies in Node with its default (root or
  English) locale, as far as letters and digits go: names are compared without regard to
  case first, and two names that differ in case only are ordered at their first
  difference, the small letter first. So \<^verbatim>\<open>"a".localeCompare("B")\<close> is negative. The
  scanner takes the collation as a parameter; this one is for the examples.
\<close>

fun case_tiebreak :: "string \<Rightarrow> string \<Rightarrow> int" where
  "case_tiebreak (x # xs) (y # ys) =
     (if x = y then case_tiebreak xs ys else if lower_char x = x then - 1 else 1)"
| "case_tiebreak xs ys = 0"

definition default_collation :: "string \<Rightarrow> string \<Rightarrow> int" where
  "default_collation a b =
     (let primary = code_unit_compare (toLowerCase a) (toLowerCase b)
      in if primary \<noteq> 0 then primary else case_tiebreak a b)"

text \<open>
  A consistent comparison function, which is what \<^verbatim>\<open>Array.prototype.sort\<close> asks for:
  any two names are comparable, and the order is transitive.
\<close>

definition consistent :: "(string \<Rightarrow> string \<Rightarrow> int) \<Rightarrow> bool" where
  "consistent lc =
     ((\<forall>a b. lc a b \<le> 0 \<or> lc b a \<le> 0)
      \<and> (\<forall>a b c. lc a b \<le> 0 \<and> lc b c \<le> 0 \<longrightarrow> lc a c \<le> 0))"

text \<open>A qualifying name, and the children of a directory that become entries.\<close>

definition qualifies :: "string \<Rightarrow> bool" where
  "qualifies n = endsWith (toLowerCase n) ''.md''"

definition kept :: "fsnode \<Rightarrow> bool" where
  "kept d = (dirent_isDirectory d \<or> (dirent_isFile d \<and> qualifies (dirent_name d)))"

definition child_entries :: "string \<Rightarrow> string \<Rightarrow> fsnode list \<Rightarrow> FileInfo list" where
  "child_entries dirPath rootDir ds = map (mk_info dirPath rootDir) (filter kept ds)"

text \<open>
  The order of siblings: a directory before a document, and within a kind by the
  collation.
\<close>

definition sibling_order :: "(string \<Rightarrow> string \<Rightarrow> int) \<Rightarrow> FileInfo \<Rightarrow> FileInfo \<Rightarrow> bool" where
  "sibling_order lc a b =
     ((isDirectory a \<and> \<not> isDirectory b)
      \<or> (isDirectory a = isDirectory b \<and> lc (name a) (name b) \<le> 0))"

text \<open>
  The ancestor prefixes of a relative directory path, from the shallowest to the path
  itself: the first \<open>k\<close> segments joined, for \<open>k\<close> from 1 to the number of segments.
\<close>

definition ancestor_prefixes :: "string \<Rightarrow> string list" where
  "ancestor_prefixes p =
     map (\<lambda>k. join_sep (take k (split_sep p))) [1 ..< Suc (length (split_sep p))]"

text \<open>A name that a directory listing can contain as a segment of a path.\<close>

definition valid_segment :: "string \<Rightarrow> bool" where
  "valid_segment s = (s \<noteq> [] \<and> s \<noteq> ''.'' \<and> s \<noteq> ''..'' \<and> sep \<notin> set s)"

text \<open>The values of \<^verbatim>\<open>lastProcessedDirRelative\<close> after each entry of a pass.\<close>

fun last_trace :: "(string \<Rightarrow> string option) \<Rightarrow> assembly \<Rightarrow> FileInfo list \<Rightarrow> string list" where
  "last_trace rd st [] = []"
| "last_trace rd st (info # infos) =
     (let st' = process_entry rd st info
      in lastProcessedDirRelative st' # last_trace rd st' infos)"

text \<open>A child that the scanner looks at: a directory or a regular file.\<close>

definition listed :: "fsnode \<Rightarrow> bool" where
  "listed d = (dirent_isDirectory d \<or> dirent_isFile d)"

text \<open>
  A tree as a file system holds it: every name is a valid segment, and the names in one
  directory are distinct.
\<close>

fun wf_tree :: "fsnode \<Rightarrow> bool" where
  "wf_tree (Directory n cs) =
     (valid_segment n \<and> distinct (map dirent_name cs) \<and> list_all wf_tree cs)"
| "wf_tree (Unlistable n) = valid_segment n"
| "wf_tree (RegularFile n) = valid_segment n"
| "wf_tree (Special n) = valid_segment n"

fun children :: "fsnode \<Rightarrow> fsnode list" where
  "children (Directory n cs) = cs"
| "children d = []"

text \<open>
  The directories at and below a node, each as the list of names that leads to it from the
  parent of the node.
\<close>

fun dir_paths :: "fsnode \<Rightarrow> string list list" where
  "dir_paths (Directory n cs) = [n] # map ((#) n) (concat (map dir_paths cs))"
| "dir_paths (Unlistable n) = [[n]]"
| "dir_paths (RegularFile n) = []"
| "dir_paths (Special n) = []"

text \<open>
  The invariant of an entry list that the assembler relies on: the parent directory of
  every document is \<open>D\<close>, the directory being listed, or the relative path of a directory
  entry seen before the document.
\<close>

fun parents_ok :: "string \<Rightarrow> string set \<Rightarrow> FileInfo list \<Rightarrow> bool" where
  "parents_ok D seen [] = True"
| "parents_ok D seen (e # es) =
     ((isDirectory e \<or> path_dirname (relativePath e) = D \<or> path_dirname (relativePath e) \<in> seen)
      \<and> parents_ok D (if isDirectory e then insert (relativePath e) seen else seen) es)"

text \<open>The relative paths of the directory entries of a list.\<close>

definition dir_rels :: "FileInfo list \<Rightarrow> string set" where
  "dir_rels es = relativePath ` {e \<in> set es. isDirectory e}"

text \<open>
  An entry below the directory with the segments \<open>ds\<close>: its relative path continues
  \<open>ds\<close> with valid segments, the first of them from \<open>names\<close>. A scan result is in order
  when its entries lie below the directory listed, have distinct relative paths, satisfy
  the invariant above, and every directory of the tree has its entry.
\<close>

definition below :: "string list \<Rightarrow> string set \<Rightarrow> FileInfo \<Rightarrow> bool" where
  "below ds names e =
     (\<exists>ts. ts \<noteq> [] \<and> (\<forall>t\<in>set ts. valid_segment t) \<and> hd ts \<in> names
           \<and> relativePath e = join_sep (ds @ ts))"

definition scan_ok :: "string list \<Rightarrow> fsnode list \<Rightarrow> FileInfo list \<Rightarrow> bool" where
  "scan_ok ds cs res =
     ((\<forall>e\<in>set res. below ds (dirent_name ` set cs) e)
      \<and> distinct (map relativePath res)
      \<and> parents_ok (if ds = [] then ''.'' else join_sep ds) {} res
      \<and> (\<forall>c\<in>set cs. \<forall>p\<in>set (dir_paths c).
            \<exists>e\<in>set res. isDirectory e \<and> relativePath e = join_sep (ds @ p)))"

section \<open>Example hosts and trees\<close>

text \<open>
  A host whose root directory holds a file that does not qualify and a symbolic link:
  nothing for the scanner to list.
\<close>

definition empty_root_host :: host where
  "empty_root_host =
     \<lparr>argv = [''docs''],
      cwd = ''/home/u'',
      resolve = (\<lambda>p. ''/home/u/'' @ p),
      stat = (\<lambda>p. if p = ''/home/u/docs''
                   then Found (Directory ''docs'' [RegularFile ''todo.txt'', Special ''link.md''])
                   else ENOENT),
      localeCompare = default_collation,
      readFile = (\<lambda>p. None),
      writable = (\<lambda>p. True)\<rparr>"

text \<open>A host on which one of two documents cannot be read.\<close>

definition unreadable_host :: host where
  "unreadable_host =
     \<lparr>argv = [''/r''],
      cwd = ''/home/u'',
      resolve = (\<lambda>p. p),
      stat = (\<lambda>p. if p = ''/r'' then Found (Directory ''r'' [RegularFile ''a.md'', RegularFile ''b.md''])
                   else ENOENT),
      localeCompare = default_collation,
      readFile = map_of [(''/r/b.md'', ''B'')],
      writable = (\<lambda>p. True)\<rparr>"

text \<open>
  A directory that holds a subdirectory with a document and a document of its own, with
  the entries the scanner returns for it.
\<close>

definition nested_tree :: fsnode where
  "nested_tree =
     Directory ''r''
       [Directory ''x'' [Directory ''y'' [RegularFile ''z.md''], RegularFile ''w.md'']]"

definition nested_entries :: "FileInfo list" where
  "nested_entries =
     [\<lparr>fullPath = ''/r/x'', relativePath = ''x'', isDirectory = True, name = ''x''\<rparr>,
      \<lparr>fullPath = ''/r/x/y'', relativePath = ''x/y'', isDirectory = True, name = ''y''\<rparr>,
      \<lparr>fullPath = ''/r/x/y/z.md'', relativePath = ''x/y/z.md'', isDirectory = False, name = ''z.md''\<rparr>,
      \<lparr>fullPath = ''/r/x/w.md'', relativePath = ''x/w.md'', isDirectory = False, name = ''w.md''\<rparr>]"

definition nested_files :: "string \<Rightarrow> string option" where
  "nested_files = map_of [(''/r/x/y/z.md'', ''Z''), (''/r/x/w.md'', ''W'')]"

text \<open>A directory with no qualifying document anywhere below it.\<close>

definition barren_tree :: fsnode where
  "barren_tree = Directory ''r'' [Directory ''drafts'' [RegularFile ''todo.txt'', Directory ''old'' []]]"

definition barren_entries :: "FileInfo list" where
  "barren_entries =
     [\<lparr>fullPath = ''/r/drafts'', relativePath = ''drafts'', isDirectory = True, name = ''drafts''\<rparr>,
      \<lparr>fullPath = ''/r/drafts/old'', relativePath = ''drafts/old'', isDirectory = True, name = ''old''\<rparr>]"

definition barren_files :: "string \<Rightarrow> string option" where
  "barren_files = map_of []"

text \<open>A root with the file \<^verbatim>\<open>a.md\<close> and the subdirectory \<^verbatim>\<open>sub\<close> holding \<^verbatim>\<open>b.md\<close>.\<close>

definition two_level_tree :: fsnode where
  "two_level_tree = Directory ''r'' [RegularFile ''a.md'', Directory ''sub'' [RegularFile ''b.md'']]"

definition two_level_entries :: "FileInfo list" where
  "two_level_entries =
     [\<lparr>fullPath = ''/r/sub'', relativePath = ''sub'', isDirectory = True, name = ''sub''\<rparr>,
      \<lparr>fullPath = ''/r/sub/b.md'', relativePath = ''sub/b.md'', isDirectory = False, name = ''b.md''\<rparr>,
      \<lparr>fullPath = ''/r/a.md'', relativePath = ''a.md'', isDirectory = False, name = ''a.md''\<rparr>]"

definition two_level_files :: "string \<Rightarrow> string option" where
  "two_level_files = map_of [(''/r/a.md'', ''Alpha''), (''/r/sub/b.md'', ''Beta'')]"

section \<open>Properties of the scanner\<close>

subsection \<open>The loop and its accumulator\<close>

lemma for_dirents_acc:
  "for_dirents lc ds dirPath rootDir acc =
     (case for_dirents lc ds dirPath rootDir [] of Inl e \<Rightarrow> Inl e | Inr xs \<Rightarrow> Inr (acc @ xs))"
proof (induction ds arbitrary: acc)
  case Nil
  then show ?case by simp
next
  case (Cons d ds)
  note IH = Cons.IH
  show ?case
  proof (cases "dirent_isDirectory d")
    case True
    show ?thesis
    proof (cases "findMarkdownRecursive lc d (path_join dirPath (dirent_name d)) rootDir")
      case (Inl e)
      with True show ?thesis by simp
    next
      case (Inr sub)
      have "for_dirents lc (d # ds) dirPath rootDir acc
            = for_dirents lc ds dirPath rootDir ((acc @ [mk_info dirPath rootDir d]) @ sub)"
        using True Inr by simp
      also have "\<dots> = (case for_dirents lc ds dirPath rootDir [] of Inl e \<Rightarrow> Inl e
                        | Inr xs \<Rightarrow> Inr (((acc @ [mk_info dirPath rootDir d]) @ sub) @ xs))"
        by (rule IH)
      finally have l: "for_dirents lc (d # ds) dirPath rootDir acc
            = (case for_dirents lc ds dirPath rootDir [] of Inl e \<Rightarrow> Inl e
                        | Inr xs \<Rightarrow> Inr (((acc @ [mk_info dirPath rootDir d]) @ sub) @ xs))" .
      have "for_dirents lc (d # ds) dirPath rootDir []
            = for_dirents lc ds dirPath rootDir (([] @ [mk_info dirPath rootDir d]) @ sub)"
        using True Inr by simp
      also have "\<dots> = (case for_dirents lc ds dirPath rootDir [] of Inl e \<Rightarrow> Inl e
                        | Inr xs \<Rightarrow> Inr ((([] @ [mk_info dirPath rootDir d]) @ sub) @ xs))"
        by (rule IH)
      finally have r: "for_dirents lc (d # ds) dirPath rootDir []
            = (case for_dirents lc ds dirPath rootDir [] of Inl e \<Rightarrow> Inl e
                        | Inr xs \<Rightarrow> Inr ((([] @ [mk_info dirPath rootDir d]) @ sub) @ xs))" .
      show ?thesis unfolding l r by (simp split: sum.splits)
    qed
  next
    case False
    show ?thesis
    proof (cases "dirent_isFile d \<and> endsWith (toLowerCase (dirent_name d)) ''.md''")
      case True
      have l: "for_dirents lc (d # ds) dirPath rootDir acc
            = (case for_dirents lc ds dirPath rootDir [] of Inl e \<Rightarrow> Inl e
                        | Inr xs \<Rightarrow> Inr ((acc @ [mk_info dirPath rootDir d]) @ xs))"
        using True False IH[of "acc @ [mk_info dirPath rootDir d]"] by simp
      have r: "for_dirents lc (d # ds) dirPath rootDir []
            = (case for_dirents lc ds dirPath rootDir [] of Inl e \<Rightarrow> Inl e
                        | Inr xs \<Rightarrow> Inr (([] @ [mk_info dirPath rootDir d]) @ xs))"
        using True False IH[of "[] @ [mk_info dirPath rootDir d]"] by simp
      show ?thesis unfolding l r by (simp split: sum.splits)
    next
      case F2: False
      have l: "for_dirents lc (d # ds) dirPath rootDir acc = for_dirents lc ds dirPath rootDir acc"
        using F2 False by auto
      have r: "for_dirents lc (d # ds) dirPath rootDir [] = for_dirents lc ds dirPath rootDir []"
        using F2 False by auto
      show ?thesis unfolding l r by (rule IH)
    qed
  qed
qed


lemma for_dirents_append:
  "for_dirents lc (ds1 @ ds2) dirPath rootDir acc =
     (case for_dirents lc ds1 dirPath rootDir acc of
        Inl e \<Rightarrow> Inl e
      | Inr xs \<Rightarrow> for_dirents lc ds2 dirPath rootDir xs)"
  by (induction ds1 arbitrary: acc) (auto split: sum.splits)

lemma for_dirents_split:
  assumes "for_dirents lc (ds1 @ ds2) dirPath rootDir [] = Inr res"
  shows "\<exists>xs ys. res = xs @ ys \<and> for_dirents lc ds1 dirPath rootDir [] = Inr xs
                 \<and> for_dirents lc ds2 dirPath rootDir [] = Inr ys"
proof -
  obtain xs where xs: "for_dirents lc ds1 dirPath rootDir [] = Inr xs"
    and rest: "for_dirents lc ds2 dirPath rootDir xs = Inr res"
    using assms by (auto simp: for_dirents_append split: sum.splits)
  from rest obtain ys where ys: "for_dirents lc ds2 dirPath rootDir [] = Inr ys" and "res = xs @ ys"
    by (subst (asm) for_dirents_acc) (auto split: sum.splits)
  with xs show ?thesis by blast
qed

lemma for_dirents_directory:
  assumes "for_dirents lc (d # ds) dirPath rootDir [] = Inr res" and "dirent_isDirectory d"
  shows "\<exists>sub post. res = mk_info dirPath rootDir d # sub @ post
           \<and> findMarkdownRecursive lc d (path_join dirPath (dirent_name d)) rootDir = Inr sub
           \<and> for_dirents lc ds dirPath rootDir [] = Inr post"
proof -
  obtain sub where sub: "findMarkdownRecursive lc d (path_join dirPath (dirent_name d)) rootDir = Inr sub"
    and rest: "for_dirents lc ds dirPath rootDir (mk_info dirPath rootDir d # sub) = Inr res"
    using assms by (auto split: sum.splits)
  from rest obtain post where "for_dirents lc ds dirPath rootDir [] = Inr post"
    and "res = (mk_info dirPath rootDir d # sub) @ post"
    by (subst (asm) for_dirents_acc) (auto split: sum.splits)
  with sub show ?thesis by auto
qed

subsection \<open>Pre-order, depth first\<close>

text \<open>
  Claim C5. The entry list of a directory is a pre-order, depth-first traversal. Take any
  directory the scanner visits and any directory \<open>d\<close> among its sorted children, with
  \<open>before\<close> and \<open>after\<close> the earlier and the later siblings. Then the entries of the
  visited directory are: everything the earlier siblings contribute, the entry of \<open>d\<close>
  itself, immediately followed by the whole result of scanning \<open>d\<close> (all its
  descendants, in one block), and only then everything the later siblings contribute.
\<close>

theorem subtree_contiguous:
  assumes "findMarkdownRecursive lc (Directory n cs) dirPath rootDir = Inr res"
    and "sort_by (compare_dirents lc) cs = before @ d # after"
    and "dirent_isDirectory d"
  shows "\<exists>pre sub post.
           res = pre @ mk_info dirPath rootDir d # sub @ post
           \<and> for_dirents lc before dirPath rootDir [] = Inr pre
           \<and> findMarkdownRecursive lc d (path_join dirPath (dirent_name d)) rootDir = Inr sub
           \<and> for_dirents lc after dirPath rootDir [] = Inr post"
proof -
  from assms(1,2) have "for_dirents lc (before @ d # after) dirPath rootDir [] = Inr res"
    by simp
  then obtain pre ys where res: "res = pre @ ys"
    and pre: "for_dirents lc before dirPath rootDir [] = Inr pre"
    and ys: "for_dirents lc (d # after) dirPath rootDir [] = Inr ys"
    using for_dirents_split by blast
  from for_dirents_directory[OF ys assms(3)] obtain sub post
    where "ys = mk_info dirPath rootDir d # sub @ post"
      and "findMarkdownRecursive lc d (path_join dirPath (dirent_name d)) rootDir = Inr sub"
      and "for_dirents lc after dirPath rootDir [] = Inr post"
    by blast
  with res pre show ?thesis by blast
qed

theorem subtree_contiguous_witness:
  "findMarkdownRecursive default_collation
     (Directory ''r'' [RegularFile ''a.md'', Directory ''y'' [], Directory ''x'' [RegularFile ''z.md'']])
     ''/r'' ''/r''
   = Inr [\<lparr>fullPath = ''/r/x'', relativePath = ''x'', isDirectory = True, name = ''x''\<rparr>,
          \<lparr>fullPath = ''/r/x/z.md'', relativePath = ''x/z.md'', isDirectory = False, name = ''z.md''\<rparr>,
          \<lparr>fullPath = ''/r/y'', relativePath = ''y'', isDirectory = True, name = ''y''\<rparr>,
          \<lparr>fullPath = ''/r/a.md'', relativePath = ''a.md'', isDirectory = False, name = ''a.md''\<rparr>]
   \<and> sort_by (compare_dirents default_collation)
         [RegularFile ''a.md'', Directory ''y'' [], Directory ''x'' [RegularFile ''z.md'']]
       = [] @ Directory ''x'' [RegularFile ''z.md''] # [Directory ''y'' [], RegularFile ''a.md'']
   \<and> dirent_isDirectory (Directory ''x'' [RegularFile ''z.md''])
   \<and> (\<exists>pre sub post.
         [\<lparr>fullPath = ''/r/x'', relativePath = ''x'', isDirectory = True, name = ''x''\<rparr>,
          \<lparr>fullPath = ''/r/x/z.md'', relativePath = ''x/z.md'', isDirectory = False, name = ''z.md''\<rparr>,
          \<lparr>fullPath = ''/r/y'', relativePath = ''y'', isDirectory = True, name = ''y''\<rparr>,
          \<lparr>fullPath = ''/r/a.md'', relativePath = ''a.md'', isDirectory = False, name = ''a.md''\<rparr>]
         = pre @ mk_info ''/r'' ''/r'' (Directory ''x'' [RegularFile ''z.md'']) # sub @ post
         \<and> for_dirents default_collation [] ''/r'' ''/r'' [] = Inr pre
         \<and> findMarkdownRecursive default_collation (Directory ''x'' [RegularFile ''z.md''])
               (path_join ''/r'' (dirent_name (Directory ''x'' [RegularFile ''z.md'']))) ''/r'' = Inr sub
         \<and> for_dirents default_collation [Directory ''y'' [], RegularFile ''a.md''] ''/r'' ''/r'' []
             = Inr post)"
proof -
  have scan: "findMarkdownRecursive default_collation
     (Directory ''r'' [RegularFile ''a.md'', Directory ''y'' [], Directory ''x'' [RegularFile ''z.md'']])
     ''/r'' ''/r''
   = Inr [\<lparr>fullPath = ''/r/x'', relativePath = ''x'', isDirectory = True, name = ''x''\<rparr>,
          \<lparr>fullPath = ''/r/x/z.md'', relativePath = ''x/z.md'', isDirectory = False, name = ''z.md''\<rparr>,
          \<lparr>fullPath = ''/r/y'', relativePath = ''y'', isDirectory = True, name = ''y''\<rparr>,
          \<lparr>fullPath = ''/r/a.md'', relativePath = ''a.md'', isDirectory = False, name = ''a.md''\<rparr>]"
    by code_simp
  have sorted: "sort_by (compare_dirents default_collation)
         [RegularFile ''a.md'', Directory ''y'' [], Directory ''x'' [RegularFile ''z.md'']]
       = [] @ Directory ''x'' [RegularFile ''z.md''] # [Directory ''y'' [], RegularFile ''a.md'']"
    by code_simp
  have dir: "dirent_isDirectory (Directory ''x'' [RegularFile ''z.md''])"
    by simp
  from subtree_contiguous [OF scan sorted dir] scan sorted dir show ?thesis
    by blast
qed

subsection \<open>Sorting and the entries of the children\<close>

lemma mset_insert_by: "mset (insert_by c x xs) = add_mset x (mset xs)"
  by (induction xs) auto

lemma mset_sort_by: "mset (sort_by c xs) = mset xs"
  by (induction xs) (auto simp: mset_insert_by)

lemma set_sort_by: "set (sort_by c xs) = set xs"
  using mset_sort_by[of c xs] by (metis set_mset_mset)

lemma mk_info_sel [simp]:
  "isDirectory (mk_info dirPath rootDir d) = dirent_isDirectory d"
  "name (mk_info dirPath rootDir d) = dirent_name d"
  "fullPath (mk_info dirPath rootDir d) = path_join dirPath (dirent_name d)"
  "relativePath (mk_info dirPath rootDir d) = path_relative rootDir (path_join dirPath (dirent_name d))"
  by (simp_all add: mk_info_def Let_def)

lemma for_dirents_skip:
  "\<forall>d\<in>set ds. \<not> kept d \<Longrightarrow> for_dirents lc ds dirPath rootDir acc = Inr acc"
  by (induction ds arbitrary: acc) (auto simp: kept_def qualifies_def)

lemma for_dirents_subseq:
  "for_dirents lc ds dirPath rootDir [] = Inr res \<Longrightarrow> subseq (child_entries dirPath rootDir ds) res"
proof (induction ds arbitrary: res)
  case Nil
  then show ?case by (simp add: child_entries_def)
next
  case (Cons d ds)
  show ?case
  proof (cases "dirent_isDirectory d")
    case True
    from for_dirents_directory[OF Cons.prems True] obtain sub post
      where res: "res = mk_info dirPath rootDir d # sub @ post"
        and post: "for_dirents lc ds dirPath rootDir [] = Inr post" by blast
    have "subseq (child_entries dirPath rootDir ds) post" by (rule Cons.IH[OF post])
    then have "subseq (child_entries dirPath rootDir ds) (sub @ post)"
      by (rule list_emb_append2)
    then show ?thesis using True res by (simp add: child_entries_def kept_def)
  next
    case False
    show ?thesis
    proof (cases "kept d")
      case True
      with False have "for_dirents lc ds dirPath rootDir [mk_info dirPath rootDir d] = Inr res"
        using Cons.prems by (simp add: kept_def qualifies_def)
      then obtain post where post: "for_dirents lc ds dirPath rootDir [] = Inr post"
        and res: "res = mk_info dirPath rootDir d # post"
        by (subst (asm) for_dirents_acc) (auto split: sum.splits)
      from Cons.IH[OF post] show ?thesis using True res by (simp add: child_entries_def)
    next
      case F2: False
      with False have "for_dirents lc ds dirPath rootDir [] = Inr res"
        using Cons.prems by (auto simp: kept_def qualifies_def)
      from Cons.IH[OF this] show ?thesis using F2 by (simp add: child_entries_def)
    qed
  qed
qed

lemma documents_qualify_aux:
  "(findMarkdownRecursive lc node dirPath rootDir = Inr res \<longrightarrow>
      (\<forall>e\<in>set res. \<not> isDirectory e \<longrightarrow> qualifies (name e)))"
  "(for_dirents lc ds dirPath rootDir acc = Inr res' \<longrightarrow>
      (\<forall>e\<in>set acc. \<not> isDirectory e \<longrightarrow> qualifies (name e)) \<longrightarrow>
      (\<forall>e\<in>set res'. \<not> isDirectory e \<longrightarrow> qualifies (name e)))"
proof (induction lc node dirPath rootDir and lc ds dirPath rootDir acc
       arbitrary: res and res' rule: findMarkdownRecursive_for_dirents.induct)
  case (1 lc n cs dirPath rootDir)
  then show ?case by simp
next
  case (6 lc dirent rest dirPath rootDir results)
  show ?case
  proof (cases "dirent_isDirectory dirent")
    case True
    show ?thesis
    proof (cases "findMarkdownRecursive lc dirent (path_join dirPath (dirent_name dirent)) rootDir")
      case (Inl e)
      with True show ?thesis by simp
    next
      case (Inr sub)
      from "6.IH"(1)[OF True, of sub] Inr
      have sub: "\<forall>e\<in>set sub. \<not> isDirectory e \<longrightarrow> qualifies (name e)" by simp
      from "6.IH"(2)[OF True Inr, of res'] sub True Inr show ?thesis by auto
    qed
  next
    case False
    show ?thesis
    proof (cases "dirent_isFile dirent \<and> endsWith (toLowerCase (dirent_name dirent)) ''.md''")
      case True
      from "6.IH"(3)[OF False True, of res'] False True show ?thesis
        by (simp add: qualifies_def)
    next
      case F2: False
      from "6.IH"(4)[OF False F2, of res'] False F2 show ?thesis by auto
    qed
  qed
qed simp_all


subsection \<open>Which files become documents\<close>

text \<open>
  Claim C6. A file child becomes a Document entry if and only if its name, lowercased,
  ends with \<^verbatim>\<open>.md\<close>. For a regular file \<open>f\<close> among the children of a scanned directory:
  its entry is in the result exactly when the name qualifies; every Document entry of the
  result, at any depth, has a qualifying name; and the loop passes over the file without
  failing, adding its one entry when the name qualifies and nothing otherwise.
\<close>

theorem document_iff_md:
  assumes "findMarkdownRecursive lc (Directory n cs) dirPath rootDir = Inr res"
    and "RegularFile f \<in> set cs"
  shows "(mk_info dirPath rootDir (RegularFile f) \<in> set res
            \<longleftrightarrow> endsWith (toLowerCase f) ''.md'')
         \<and> (\<forall>e\<in>set res. \<not> isDirectory e \<longrightarrow> endsWith (toLowerCase (name e)) ''.md'')
         \<and> (\<forall>rest results. for_dirents lc (RegularFile f # rest) dirPath rootDir results
               = for_dirents lc rest dirPath rootDir
                   (if endsWith (toLowerCase f) ''.md''
                    then results @ [mk_info dirPath rootDir (RegularFile f)] else results))"
proof -
  have docs: "\<forall>e\<in>set res. \<not> isDirectory e \<longrightarrow> endsWith (toLowerCase (name e)) ''.md''"
    using documents_qualify_aux(1)[of lc "Directory n cs" dirPath rootDir res] assms(1)
    by (simp add: qualifies_def)
  have loop: "for_dirents lc (sort_by (compare_dirents lc) cs) dirPath rootDir [] = Inr res"
    using assms(1) by simp
  have "mk_info dirPath rootDir (RegularFile f) \<in> set res" if q: "endsWith (toLowerCase f) ''.md''"
  proof -
    have "RegularFile f \<in> set (filter kept (sort_by (compare_dirents lc) cs))"
      using assms(2) q by (simp add: set_sort_by kept_def qualifies_def)
    then have "mk_info dirPath rootDir (RegularFile f)
                 \<in> set (child_entries dirPath rootDir (sort_by (compare_dirents lc) cs))"
      unfolding child_entries_def by (metis imageI set_map)
    from list_emb_set[OF for_dirents_subseq[OF loop] this] show ?thesis
      by blast
  qed
  moreover have "endsWith (toLowerCase f) ''.md''" if "mk_info dirPath rootDir (RegularFile f) \<in> set res"
  proof -
    from docs that
    have "\<not> isDirectory (mk_info dirPath rootDir (RegularFile f))
            \<longrightarrow> endsWith (toLowerCase (name (mk_info dirPath rootDir (RegularFile f)))) ''.md''"
      by (rule bspec)
    then show ?thesis by simp
  qed
  ultimately have "mk_info dirPath rootDir (RegularFile f) \<in> set res
            \<longleftrightarrow> endsWith (toLowerCase f) ''.md''"
    by blast
  moreover have "\<forall>rest results. for_dirents lc (RegularFile f # rest) dirPath rootDir results
               = for_dirents lc rest dirPath rootDir
                   (if endsWith (toLowerCase f) ''.md''
                    then results @ [mk_info dirPath rootDir (RegularFile f)] else results)"
    by simp
  ultimately show ?thesis using docs by blast
qed

theorem document_iff_md_witness:
  "findMarkdownRecursive default_collation
       (Directory ''r'' [RegularFile ''notes.txt'', RegularFile ''README.MD'']) ''/r'' ''/r''
     = Inr [\<lparr>fullPath = ''/r/README.MD'', relativePath = ''README.MD'', isDirectory = False,
             name = ''README.MD''\<rparr>]
   \<and> RegularFile ''notes.txt'' \<in> set [RegularFile ''notes.txt'', RegularFile ''README.MD'']
   \<and> RegularFile ''README.MD'' \<in> set [RegularFile ''notes.txt'', RegularFile ''README.MD'']
   \<and> mk_info ''/r'' ''/r'' (RegularFile ''notes.txt'')
         \<notin> set [\<lparr>fullPath = ''/r/README.MD'', relativePath = ''README.MD'', isDirectory = False,
                   name = ''README.MD''\<rparr>]
   \<and> \<not> endsWith (toLowerCase ''notes.txt'') ''.md''
   \<and> mk_info ''/r'' ''/r'' (RegularFile ''README.MD'')
         \<in> set [\<lparr>fullPath = ''/r/README.MD'', relativePath = ''README.MD'', isDirectory = False,
                   name = ''README.MD''\<rparr>]
   \<and> endsWith (toLowerCase ''README.MD'') ''.md''"
proof -
  have scan: "findMarkdownRecursive default_collation
       (Directory ''r'' [RegularFile ''notes.txt'', RegularFile ''README.MD'']) ''/r'' ''/r''
     = Inr [\<lparr>fullPath = ''/r/README.MD'', relativePath = ''README.MD'', isDirectory = False,
             name = ''README.MD''\<rparr>]"
    by code_simp
  have plain: "RegularFile ''notes.txt'' \<in> set [RegularFile ''notes.txt'', RegularFile ''README.MD'']"
    by simp
  have md: "RegularFile ''README.MD'' \<in> set [RegularFile ''notes.txt'', RegularFile ''README.MD'']"
    by simp
  have no: "\<not> endsWith (toLowerCase ''notes.txt'') ''.md''"
    by code_simp
  have yes: "endsWith (toLowerCase ''README.MD'') ''.md''"
    by code_simp
  from document_iff_md [OF scan plain] document_iff_md [OF scan md] scan plain md no yes
  show ?thesis by blast
qed

subsection \<open>The order of siblings\<close>

lemma sorted_insert_by:
  assumes total: "\<And>a b. c a b \<le> 0 \<or> c b a \<le> 0"
    and trans: "\<And>a b d. c a b \<le> 0 \<Longrightarrow> c b d \<le> 0 \<Longrightarrow> c a d \<le> 0"
  shows "sorted_wrt (\<lambda>a b. c a b \<le> 0) xs \<Longrightarrow> sorted_wrt (\<lambda>a b. c a b \<le> 0) (insert_by c x xs)"
proof (induction xs)
  case Nil
  then show ?case by simp
next
  case (Cons y ys)
  show ?case
  proof (cases "c x y \<le> 0")
    case True
    have "\<forall>z\<in>set ys. c x z \<le> 0"
      using Cons.prems True trans by auto
    with True Cons.prems show ?thesis by simp
  next
    case False
    then have yx: "c y x \<le> 0" using total[of x y] by simp
    have "set (insert_by c x ys) = insert x (set ys)"
      using mset_insert_by[of c x ys] by (metis set_mset_mset set_mset_add_mset_insert)
    with False yx Cons show ?thesis by simp
  qed
qed

lemma sorted_sort_by:
  assumes "\<And>a b. c a b \<le> 0 \<or> c b a \<le> 0"
    and "\<And>a b d. c a b \<le> 0 \<Longrightarrow> c b d \<le> 0 \<Longrightarrow> c a d \<le> 0"
  shows "sorted_wrt (\<lambda>a b. c a b \<le> 0) (sort_by c xs)"
  by (induction xs) (simp_all add: sorted_insert_by[OF assms])

lemma compare_dirents_total:
  assumes "consistent lc"
  shows "compare_dirents lc a b \<le> 0 \<or> compare_dirents lc b a \<le> 0"
proof -
  from assms have "lc (dirent_name a) (dirent_name b) \<le> 0 \<or> lc (dirent_name b) (dirent_name a) \<le> 0"
    unfolding consistent_def by blast
  then show ?thesis
    by (cases "dirent_isDirectory a"; cases "dirent_isDirectory b")
       (simp_all add: compare_dirents_def)
qed

lemma compare_dirents_trans:
  assumes "consistent lc"
    and "compare_dirents lc a b \<le> 0" and "compare_dirents lc b d \<le> 0"
  shows "compare_dirents lc a d \<le> 0"
proof -
  from assms(1) have tr: "lc (dirent_name a) (dirent_name b) \<le> 0
      \<Longrightarrow> lc (dirent_name b) (dirent_name d) \<le> 0 \<Longrightarrow> lc (dirent_name a) (dirent_name d) \<le> 0"
    unfolding consistent_def by blast
  show ?thesis
    using assms(2,3) tr
    by (cases "dirent_isDirectory a"; cases "dirent_isDirectory b"; cases "dirent_isDirectory d")
       (simp_all add: compare_dirents_def)
qed

lemma compare_dirents_sibling_order:
  "compare_dirents lc a b \<le> 0 \<Longrightarrow>
     sibling_order lc (mk_info dirPath rootDir a) (mk_info dirPath rootDir b)"
  unfolding compare_dirents_def sibling_order_def by (auto split: if_splits)

text \<open>The default collation is a consistent comparison function.\<close>

lemma code_unit_compare_zero: "code_unit_compare x y = 0 \<longleftrightarrow> x = y"
  by (induction x y rule: code_unit_compare.induct) (auto simp: of_char_eq_iff)

lemma code_unit_compare_refl [simp]: "code_unit_compare x x = 0"
  by (simp add: code_unit_compare_zero)

lemma code_unit_compare_flip: "code_unit_compare y x = - code_unit_compare x y"
  by (induction x y rule: code_unit_compare.induct) auto

lemma code_unit_compare_trans:
  "code_unit_compare x y \<le> 0 \<Longrightarrow> code_unit_compare y z \<le> 0 \<Longrightarrow> code_unit_compare x z \<le> 0"
proof (induction x y arbitrary: z rule: code_unit_compare.induct)
  case 1
  then show ?case by simp
next
  case (2 y ys)
  then show ?case by (cases z) auto
next
  case (3 x xs)
  then show ?case by simp
next
  case (4 x xs y ys)
  show ?case
  proof (cases z)
    case Nil
    with "4.prems"(2) show ?thesis by simp
  next
    case (Cons w ws)
    from "4.prems"(1) have xy: "\<not> (of_char y :: nat) < of_char x"
      by (simp split: if_splits)
    from "4.prems"(2) Cons have yw: "\<not> (of_char w :: nat) < of_char y"
      by (simp split: if_splits)
    show ?thesis
    proof (cases "(of_char x :: nat) < of_char y \<or> (of_char y :: nat) < of_char w")
      case True
      with xy yw have "(of_char x :: nat) < of_char w" by linarith
      with Cons show ?thesis by simp
    next
      case False
      with xy yw have eq: "(of_char x :: nat) = of_char y" "(of_char y :: nat) = of_char w"
        by linarith+
      from "4.prems"(1) eq have a: "code_unit_compare xs ys \<le> 0" by simp
      from "4.prems"(2) Cons eq have b: "code_unit_compare ys ws \<le> 0" by simp
      from eq have c: "\<not> (of_char x :: nat) < of_char y" "\<not> (of_char y :: nat) < of_char x"
        by simp_all
      from "4.IH"[OF c a b] Cons eq show ?thesis by simp
    qed
  qed
qed

lemma lower_char_changed:
  assumes "lower_char c \<noteq> c"
  shows "(of_char (lower_char c) :: nat) = of_char c + 32"
proof (cases "65 \<le> (of_char c :: nat) \<and> (of_char c :: nat) \<le> 90")
  case True
  then show ?thesis by (simp add: lower_char_def Let_def)
next
  case False
  then have "lower_char c = c" by (auto simp: lower_char_def Let_def)
  with assms show ?thesis by simp
qed

lemma lower_char_cases:
  assumes "lower_char x = lower_char y" and "x \<noteq> y"
  shows "lower_char x = x \<or> lower_char y = y"
proof (rule ccontr)
  assume "\<not> (lower_char x = x \<or> lower_char y = y)"
  then have nx: "lower_char x \<noteq> x" and ny: "lower_char y \<noteq> y" by simp_all
  from nx have ux: "(of_char (lower_char x) :: nat) = of_char x + 32"
    by (rule lower_char_changed)
  from ny have uy: "(of_char (lower_char y) :: nat) = of_char y + 32"
    by (rule lower_char_changed)
  have "(of_char x :: nat) + 32 = of_char (lower_char x)" by (simp only: ux)
  also have "\<dots> = of_char (lower_char y)" by (simp only: assms(1))
  also have "\<dots> = of_char y + 32" by (rule uy)
  finally have "(of_char x :: nat) = of_char y" by simp
  then have "x = y" by (simp add: of_char_eq_iff)
  with assms(2) show False by simp
qed

lemma case_tiebreak_total:
  "map lower_char a = map lower_char b \<Longrightarrow> case_tiebreak a b \<le> 0 \<or> case_tiebreak b a \<le> 0"
proof (induction a b rule: case_tiebreak.induct)
  case (1 x xs y ys)
  then show ?case using lower_char_cases[of x y] by auto
qed simp_all

lemma case_tiebreak_trans:
  "map lower_char a = map lower_char b \<Longrightarrow> map lower_char b = map lower_char c \<Longrightarrow>
   case_tiebreak a b \<le> 0 \<Longrightarrow> case_tiebreak b c \<le> 0 \<Longrightarrow> case_tiebreak a c \<le> 0"
proof (induction a b arbitrary: c rule: case_tiebreak.induct)
  case (1 x xs y ys)
  from "1.prems"(1,2) obtain z zs where c: "c = z # zs" by (cases c) auto
  from "1.prems"(1,2) c have lw: "lower_char x = lower_char y" "lower_char y = lower_char z"
    and rest: "map lower_char xs = map lower_char ys" "map lower_char ys = map lower_char zs"
    by auto
  show ?case
  proof (cases "x = y")
    case True
    show ?thesis
    proof (cases "y = z")
      case yz: True
      from "1.prems"(3) True have a: "case_tiebreak xs ys \<le> 0" by simp
      from "1.prems"(4) c yz have b: "case_tiebreak ys zs \<le> 0" by simp
      from "1.IH"[OF True rest a b] True yz c show ?thesis by simp
    next
      case False
      with "1.prems"(4) c have "lower_char y = y" by (simp split: if_splits)
      with True False c show ?thesis by simp
    qed
  next
    case False
    with "1.prems"(3) have lx: "lower_char x = x" by (simp split: if_splits)
    show ?thesis
    proof (cases "x = z")
      case True
      with False have "y \<noteq> z" by simp
      with "1.prems"(4) c have "lower_char y = y" by (simp split: if_splits)
      with lx lw(1) have "x = y" by simp
      with False show ?thesis by simp
    next
      case xz: False
      with lx c show ?thesis by simp
    qed
  qed
qed simp_all

lemma default_collation_le:
  "default_collation a b \<le> 0 \<longleftrightarrow>
     (code_unit_compare (toLowerCase a) (toLowerCase b) < 0
      \<or> (toLowerCase a = toLowerCase b \<and> case_tiebreak a b \<le> 0))"
  using code_unit_compare_zero[of "toLowerCase a" "toLowerCase b"]
  by (auto simp: default_collation_def Let_def)

lemma consistent_default_collation: "consistent default_collation"
  unfolding consistent_def
proof (intro conjI allI impI)
  fix a b
  show "default_collation a b \<le> 0 \<or> default_collation b a \<le> 0"
  proof (cases "toLowerCase a = toLowerCase b")
    case True
    then show ?thesis
      using case_tiebreak_total[of a b] by (auto simp: default_collation_le toLowerCase_def)
  next
    case False
    then have "code_unit_compare (toLowerCase a) (toLowerCase b) \<noteq> 0"
      by (simp add: code_unit_compare_zero)
    then show ?thesis
      using code_unit_compare_flip[of "toLowerCase b" "toLowerCase a"]
      by (auto simp: default_collation_le)
  qed
next
  fix a b c
  assume "default_collation a b \<le> 0 \<and> default_collation b c \<le> 0"
  then have ab: "default_collation a b \<le> 0" and bc: "default_collation b c \<le> 0" by simp_all
  let ?p = "\<lambda>x y. code_unit_compare (toLowerCase x) (toLowerCase y)"
  from ab have pab: "?p a b \<le> 0"
    by (auto simp: default_collation_le code_unit_compare_zero[symmetric])
  from bc have pbc: "?p b c \<le> 0"
    by (auto simp: default_collation_le code_unit_compare_zero[symmetric])
  from pab pbc have pac: "?p a c \<le> 0" by (rule code_unit_compare_trans)
  show "default_collation a c \<le> 0"
  proof (cases "?p a c = 0")
    case False
    with pac show ?thesis by (simp add: default_collation_le)
  next
    case True
    then have ac: "toLowerCase a = toLowerCase c" by (simp add: code_unit_compare_zero)
    with pbc have "?p b a \<le> 0" by simp
    with pab have "?p a b = 0" using code_unit_compare_flip[of "toLowerCase b" "toLowerCase a"] by simp
    then have ab': "toLowerCase a = toLowerCase b" by (simp add: code_unit_compare_zero)
    with ac have bc': "toLowerCase b = toLowerCase c" by simp
    from ab ab' have tab: "case_tiebreak a b \<le> 0" by (simp add: default_collation_le)
    from bc bc' have tbc: "case_tiebreak b c \<le> 0" by (simp add: default_collation_le)
    have "case_tiebreak a c \<le> 0"
      using case_tiebreak_trans[of a b c] ab' bc' tab tbc by (simp add: toLowerCase_def)
    with ac show ?thesis by (simp add: default_collation_le)
  qed
qed

text \<open>
  Claim C2, as amended. In every directory the scanner visits, the entries of the
  immediate children stand in the entry list with every directory before every document,
  and within each kind in the order of \<^verbatim>\<open>localeCompare\<close>, the collation of the host
  (any consistent comparison function): the children's entries form a subsequence of the
  result that holds exactly the entries of the kept children and is sorted by
  \<open>sibling_order\<close>.
\<close>

theorem siblings_sorted:
  assumes "consistent lc"
    and "findMarkdownRecursive lc (Directory n cs) dirPath rootDir = Inr res"
  shows "\<exists>es. subseq es res
              \<and> mset es = mset (child_entries dirPath rootDir cs)
              \<and> sorted_wrt (sibling_order lc) es"
proof -
  let ?sorted = "sort_by (compare_dirents lc) cs"
  let ?es = "child_entries dirPath rootDir ?sorted"
  have loop: "for_dirents lc ?sorted dirPath rootDir [] = Inr res"
    using assms(2) by simp
  have sub: "subseq ?es res" by (rule for_dirents_subseq[OF loop])
  have perm: "mset ?es = mset (child_entries dirPath rootDir cs)"
    by (simp add: child_entries_def mset_sort_by)
  have "sorted_wrt (\<lambda>a b. compare_dirents lc a b \<le> 0) ?sorted"
    using compare_dirents_total[OF assms(1)] compare_dirents_trans[OF assms(1)]
    by (rule sorted_sort_by)
  then have "sorted_wrt (\<lambda>a b. compare_dirents lc a b \<le> 0) (filter kept ?sorted)"
    by (rule sorted_wrt_filter)
  then have "sorted_wrt (\<lambda>a b. sibling_order lc (mk_info dirPath rootDir a) (mk_info dirPath rootDir b))
               (filter kept ?sorted)"
    by (rule sorted_wrt_mono_rel[rotated]) (simp add: compare_dirents_sibling_order)
  then have "sorted_wrt (sibling_order lc) ?es"
    by (simp add: child_entries_def sorted_wrt_map)
  with sub perm show ?thesis by blast
qed

theorem siblings_sorted_witness:
  "consistent default_collation
   \<and> (\<exists>es. subseq es two_level_entries
           \<and> mset es = mset (child_entries ''/r'' ''/r''
                               [RegularFile ''a.md'', Directory ''sub'' [RegularFile ''b.md'']])
           \<and> sorted_wrt (sibling_order default_collation) es)"
proof -
  have scan: "findMarkdownRecursive default_collation
                (Directory ''r'' [RegularFile ''a.md'', Directory ''sub'' [RegularFile ''b.md'']])
                ''/r'' ''/r'' = Inr two_level_entries"
    by code_simp
  from siblings_sorted [OF consistent_default_collation scan] consistent_default_collation
  show ?thesis by simp
qed

text \<open>
  Claim C2 as stated does not hold: the order within a kind is not the case-sensitive
  lexical one. A directory holding \<^verbatim>\<open>B.md\<close> and \<^verbatim>\<open>a.md\<close> is listed with \<^verbatim>\<open>a.md\<close> first
  under the default collation, although \<^verbatim>\<open>B.md\<close> precedes \<^verbatim>\<open>a.md\<close> in the comparison of
  code units.
\<close>

theorem capital_after_small:
  "findMarkdownRecursive default_collation
       (Directory ''r'' [RegularFile ''B.md'', RegularFile ''a.md'']) ''/r'' ''/r''
     = Inr [\<lparr>fullPath = ''/r/a.md'', relativePath = ''a.md'', isDirectory = False, name = ''a.md''\<rparr>,
            \<lparr>fullPath = ''/r/B.md'', relativePath = ''B.md'', isDirectory = False, name = ''B.md''\<rparr>]
   \<and> code_unit_compare ''B.md'' ''a.md'' = - 1"
  by code_simp

subsection \<open>Children that are neither directories nor regular files\<close>

lemma filter_insert_by:
  assumes trans: "\<And>a b d. c a b \<le> 0 \<Longrightarrow> c b d \<le> 0 \<Longrightarrow> c a d \<le> 0"
  shows "sorted_wrt (\<lambda>a b. c a b \<le> 0) xs \<Longrightarrow>
         filter P (insert_by c x xs) = (if P x then insert_by c x (filter P xs) else filter P xs)"
proof (induction xs)
  case Nil
  then show ?case by simp
next
  case (Cons y ys)
  from Cons.prems have sorted: "sorted_wrt (\<lambda>a b. c a b \<le> 0) ys"
    and above: "\<forall>z\<in>set ys. c y z \<le> 0" by simp_all
  show ?case
  proof (cases "c x y \<le> 0")
    case True
    have first: "insert_by c x (filter P ys) = x # filter P ys"
    proof (cases "filter P ys")
      case Nil
      then show ?thesis by simp
    next
      case (Cons z zs)
      then have "z \<in> set (filter P ys)" by simp
      then have "z \<in> set ys" by simp
      with above have "c y z \<le> 0" by simp
      with True have "c x z \<le> 0" by (rule trans)
      with Cons show ?thesis by simp
    qed
    with True show ?thesis by simp
  next
    case False
    with Cons.IH[OF sorted] show ?thesis by simp
  qed
qed

lemma filter_sort_by:
  assumes "\<And>a b. c a b \<le> 0 \<or> c b a \<le> 0"
    and "\<And>a b d. c a b \<le> 0 \<Longrightarrow> c b d \<le> 0 \<Longrightarrow> c a d \<le> 0"
  shows "filter P (sort_by c xs) = sort_by c (filter P xs)"
proof (induction xs)
  case Nil
  then show ?case by simp
next
  case (Cons x xs)
  have "sorted_wrt (\<lambda>a b. c a b \<le> 0) (sort_by c xs)"
    using assms by (rule sorted_sort_by)
  from filter_insert_by[OF assms(2) this, where P = P and x = x] Cons show ?case by simp
qed

lemma for_dirents_listed:
  "for_dirents lc (filter listed ds) dirPath rootDir acc = for_dirents lc ds dirPath rootDir acc"
  by (induction ds arbitrary: acc) (auto simp: listed_def split: sum.splits)

lemma scan_listed:
  assumes "consistent lc"
  shows "findMarkdownRecursive lc (Directory m (filter listed cs)) dirPath rootDir
         = findMarkdownRecursive lc (Directory m cs) dirPath rootDir"
proof -
  have "sort_by (compare_dirents lc) (filter listed cs)
        = filter listed (sort_by (compare_dirents lc) cs)"
    using compare_dirents_total[OF assms] compare_dirents_trans[OF assms]
    by (rule filter_sort_by[symmetric])
  then show ?thesis by (simp add: for_dirents_listed)
qed

text \<open>
  Claim C10. A child that is neither a directory nor a regular file (a symbolic link, a
  socket) produces no entry, whatever its name is, a name ending in \<^verbatim>\<open>.md\<close> included.
  Wherever it stands among the sorted children, the loop returns what it returns without
  it, entries and failures alike; and the scan of a directory returns what it returns for
  the directory without that child (for a consistent collation, so that the sort is
  determined). The output is assembled from the entries alone.
\<close>

theorem special_child_ignored:
  "for_dirents lc (before @ Special n # after) dirPath rootDir results
     = for_dirents lc (before @ after) dirPath rootDir results
   \<and> (consistent lc \<longrightarrow>
        findMarkdownRecursive lc (Directory m (before @ Special n # after)) dirPath rootDir
          = findMarkdownRecursive lc (Directory m (before @ after)) dirPath rootDir)"
proof -
  have loop: "for_dirents lc (before @ Special n # after) dirPath rootDir results
                = for_dirents lc (before @ after) dirPath rootDir results"
    by (simp add: for_dirents_append split: sum.splits)
  have "findMarkdownRecursive lc (Directory m (before @ Special n # after)) dirPath rootDir
          = findMarkdownRecursive lc (Directory m (before @ after)) dirPath rootDir"
    if c: "consistent lc"
  proof -
    have "filter listed (before @ Special n # after) = filter listed (before @ after)"
      by (simp add: listed_def)
    then show ?thesis
      using scan_listed[OF c, of m "before @ Special n # after" dirPath rootDir]
            scan_listed[OF c, of m "before @ after" dirPath rootDir]
      by simp
  qed
  with loop show ?thesis by blast
qed

theorem special_child_ignored_witness:
  "consistent default_collation
   \<and> findMarkdownRecursive default_collation
         (Directory ''r'' ([RegularFile ''a.md''] @ Special ''link.md'' # [RegularFile ''b.md'']))
         ''/r'' ''/r''
     = Inr [\<lparr>fullPath = ''/r/a.md'', relativePath = ''a.md'', isDirectory = False, name = ''a.md''\<rparr>,
            \<lparr>fullPath = ''/r/b.md'', relativePath = ''b.md'', isDirectory = False, name = ''b.md''\<rparr>]"
proof -
  have "findMarkdownRecursive default_collation
         (Directory ''r'' ([RegularFile ''a.md''] @ [RegularFile ''b.md''])) ''/r'' ''/r''
     = Inr [\<lparr>fullPath = ''/r/a.md'', relativePath = ''a.md'', isDirectory = False, name = ''a.md''\<rparr>,
            \<lparr>fullPath = ''/r/b.md'', relativePath = ''b.md'', isDirectory = False, name = ''b.md''\<rparr>]"
    by code_simp
  with special_child_ignored [of default_collation "[RegularFile ''a.md'']" "''link.md''"
         "[RegularFile ''b.md'']" "''/r''" "''/r''" "[]" "''r''"]
       consistent_default_collation
  show ?thesis by simp
qed

section \<open>Paths made of valid segments\<close>

lemma split_go_no_sep: "sep \<notin> set s \<Longrightarrow> split_go cur s = [cur @ s]"
  by (induction s arbitrary: cur) auto

lemma split_go_segment:
  "sep \<notin> set s \<Longrightarrow> split_go cur (s @ sep # rest) = (cur @ s) # split_go [] rest"
  by (induction s arbitrary: cur) auto

lemma split_sep_join:
  "segs \<noteq> [] \<Longrightarrow> \<forall>s\<in>set segs. sep \<notin> set s \<Longrightarrow> split_sep (join_sep segs) = segs"
proof (induction segs rule: join_sep.induct)
  case 1
  then show ?case by simp
next
  case (2 s)
  then show ?case by (simp add: split_sep_def split_go_no_sep)
next
  case (3 s t ts)
  then have "split_sep (join_sep (t # ts)) = t # ts" by simp
  with 3 show ?case using split_go_segment[of s "[]" "join_sep (t # ts)"]
    by (simp add: split_sep_def)
qed

lemma split_go_parts_no_sep:
  "sep \<notin> set cur \<Longrightarrow> s \<in> set (split_go cur p) \<Longrightarrow> sep \<notin> set s"
proof (induction p arbitrary: cur)
  case Nil
  then show ?case by simp
next
  case (Cons c p)
  show ?case
  proof (cases "c = sep")
    case True
    with Cons.prems have "s = cur \<or> s \<in> set (split_go [] p)" by simp
    then show ?thesis using Cons.IH[of "[]"] Cons.prems(1) by auto
  next
    case False
    with Cons.prems have "s \<in> set (split_go (cur @ [c]) p)" by simp
    then show ?thesis using Cons.IH[of "cur @ [c]"] Cons.prems(1) False by auto
  qed
qed

lemma split_sep_parts_no_sep: "s \<in> set (split_sep p) \<Longrightarrow> sep \<notin> set s"
  using split_go_parts_no_sep[of "[]" s p] by (simp add: split_sep_def)

lemma split_go_nonempty: "split_go cur p \<noteq> []"
  by (induction p arbitrary: cur) auto

lemma join_sep_last_nonempty: "segs \<noteq> [] \<Longrightarrow> last segs \<noteq> [] \<Longrightarrow> join_sep segs \<noteq> []"
  by (induction segs rule: join_sep.induct) auto

lemma join_sep_snoc: "segs \<noteq> [] \<Longrightarrow> join_sep (segs @ [s]) = join_sep segs @ sep # s"
  by (induction segs rule: join_sep.induct) auto

lemma join_sep_split_go: "join_sep (split_go cur p) = cur @ p"
proof (induction p arbitrary: cur)
  case Nil
  then show ?case by simp
next
  case (Cons c p)
  show ?case
  proof (cases "c = sep")
    case True
    obtain y ys where "split_go [] p = y # ys"
      using split_go_nonempty[of "[]" p] by (cases "split_go [] p") auto
    with Cons[of "[]"] True show ?thesis by simp
  next
    case False
    with Cons[of "cur @ [c]"] show ?thesis by simp
  qed
qed

lemma join_sep_split: "join_sep (split_sep p) = p"
  by (simp add: split_sep_def join_sep_split_go)

lemma normalizeString_valid:
  "\<forall>s\<in>set segs. valid_segment s \<Longrightarrow> normalizeString b res segs = res @ segs"
  by (induction segs arbitrary: res) (auto simp: valid_segment_def)

lemma join_sep_nonempty:
  "segs \<noteq> [] \<Longrightarrow> \<forall>s\<in>set segs. s \<noteq> [] \<Longrightarrow> join_sep segs \<noteq> []"
  by (induction segs rule: join_sep.induct) auto

lemma hd_join_sep:
  "segs \<noteq> [] \<Longrightarrow> hd segs \<noteq> [] \<Longrightarrow> hd (join_sep segs) = hd (hd segs)"
  by (induction segs rule: join_sep.induct) auto

lemma last_join_sep:
  "segs \<noteq> [] \<Longrightarrow> last segs \<noteq> [] \<Longrightarrow> last (join_sep segs) = last (last segs)"
proof (induction segs rule: join_sep.induct)
  case (3 s t ts)
  then have "join_sep (t # ts) \<noteq> []" by (intro join_sep_last_nonempty) auto
  with 3 show ?case by simp
qed simp_all

lemma valid_segment_ends:
  "valid_segment s \<Longrightarrow> s \<noteq> [] \<and> hd s \<noteq> sep \<and> last s \<noteq> sep"
  unfolding valid_segment_def by (metis hd_in_set last_in_set)

lemma path_normalize_relative:
  assumes "segs \<noteq> []" and "\<forall>s\<in>set segs. valid_segment s"
  shows "path_normalize (join_sep segs) = join_sep segs"
proof -
  have ne: "join_sep segs \<noteq> []"
    using assms by (intro join_sep_nonempty) (auto simp: valid_segment_def)
  have h: "hd (join_sep segs) \<noteq> sep"
    using assms hd_join_sep[of segs] valid_segment_ends[of "hd segs"] by simp
  have l: "last (join_sep segs) \<noteq> sep"
    using assms last_join_sep[of segs] valid_segment_ends[of "last segs"] by simp
  have sp: "split_sep (join_sep segs) = segs"
    using assms by (intro split_sep_join) (auto simp: valid_segment_def)
  show ?thesis
    using ne h l sp assms(2) by (simp add: path_normalize_def normalizeString_valid Let_def)
qed

lemma path_join_relative:
  assumes "segs \<noteq> []" and "\<forall>s\<in>set segs. valid_segment s" and "valid_segment s"
  shows "path_join (join_sep segs) s = join_sep (segs @ [s])"
proof -
  have ne: "join_sep segs \<noteq> []"
    using assms by (intro join_sep_nonempty) (auto simp: valid_segment_def)
  have "path_join (join_sep segs) s = path_normalize (join_sep (segs @ [s]))"
    using ne assms by (simp add: path_join_def join_sep_snoc valid_segment_def)
  also have "\<dots> = join_sep (segs @ [s])"
    using assms by (intro path_normalize_relative) auto
  finally show ?thesis .
qed

subsection \<open>Absolute paths\<close>

lemma normalizeString_skip_empty:
  "normalizeString b res ([] # segs) = normalizeString b res segs"
  by simp

lemma split_sep_absolute:
  "split_sep (sep # p) = [] # split_sep p"
  by (simp add: split_sep_def)

lemma normalize_absolute:
  assumes "\<forall>s\<in>set rs. valid_segment s"
  shows "normalizeString b [] (split_sep (sep # join_sep rs)) = rs"
proof (cases "rs = []")
  case True
  then show ?thesis by (simp add: split_sep_def)
next
  case False
  then have "split_sep (join_sep rs) = rs"
    using assms by (intro split_sep_join) (auto simp: valid_segment_def)
  then show ?thesis
    using assms by (simp add: split_sep_absolute normalizeString_valid)
qed

lemma path_normalize_absolute:
  assumes "ts \<noteq> []" and "\<forall>s\<in>set ts. valid_segment s"
  shows "path_normalize (sep # join_sep ts) = sep # join_sep ts"
proof -
  have ne: "join_sep ts \<noteq> []"
    using assms by (intro join_sep_nonempty) (auto simp: valid_segment_def)
  have l: "last (join_sep ts) \<noteq> sep"
    using assms last_join_sep[of ts] valid_segment_ends[of "last ts"] by simp
  show ?thesis
    using ne l normalize_absolute[OF assms(2), of True] normalize_absolute[OF assms(2), of False]
    by (simp add: path_normalize_def Let_def sep_def)
qed

lemma path_join_absolute:
  assumes "\<forall>s\<in>set rs. valid_segment s" and "valid_segment s"
  shows "path_join (sep # join_sep rs) s = sep # join_sep (rs @ [s])"
proof (cases "rs = []")
  case True
  have s: "s \<noteq> []" "last s \<noteq> sep" "sep \<notin> set s"
    using assms(2) valid_segment_ends[of s] by (auto simp: valid_segment_def)
  have "normalizeString False [] (split_sep (sep # sep # s)) = [s]"
    using s assms(2) by (simp add: split_sep_def split_go_no_sep valid_segment_def)
  then show ?thesis
    using True s by (simp add: path_join_def path_normalize_def Let_def sep_def)
next
  case False
  have s: "s \<noteq> []" using assms(2) by (simp add: valid_segment_def)
  have "path_join (sep # join_sep rs) s = path_normalize (sep # join_sep (rs @ [s]))"
    using False s by (simp add: path_join_def join_sep_snoc)
  also have "\<dots> = sep # join_sep (rs @ [s])"
    using assms by (intro path_normalize_absolute) auto
  finally show ?thesis .
qed

lemma drop_common_prefix: "drop_common rs (rs @ ts) = ([], ts)"
proof (induction rs)
  case Nil
  show ?case by (cases ts) simp_all
next
  case (Cons r rs)
  then show ?case by simp
qed

lemma join_sep_inject:
  assumes "\<forall>s\<in>set xs. valid_segment s" and "\<forall>s\<in>set ys. valid_segment s"
    and "join_sep xs = join_sep ys"
  shows "xs = ys"
proof (cases "xs = []")
  case True
  show ?thesis
  proof (cases "ys = []")
    case False
    then have "join_sep ys \<noteq> []"
      using assms(2) by (intro join_sep_nonempty) (auto simp: valid_segment_def)
    with True assms(3) show ?thesis by simp
  qed (simp add: True)
next
  case False
  then have nx: "join_sep xs \<noteq> []"
    using assms(1) by (intro join_sep_nonempty) (auto simp: valid_segment_def)
  with assms(3) have "ys \<noteq> []" by auto
  then have "split_sep (join_sep ys) = ys"
    using assms(2) by (intro split_sep_join) (auto simp: valid_segment_def)
  moreover have "split_sep (join_sep xs) = xs"
    using False assms(1) by (intro split_sep_join) (auto simp: valid_segment_def)
  ultimately show ?thesis using assms(3) by simp
qed

lemma path_relative_absolute:
  assumes "\<forall>s\<in>set rs. valid_segment s" and "\<forall>s\<in>set ts. valid_segment s" and "ts \<noteq> []"
  shows "path_relative (sep # join_sep rs) (sep # join_sep (rs @ ts)) = join_sep ts"
proof -
  have "join_sep rs \<noteq> join_sep (rs @ ts)"
  proof
    assume "join_sep rs = join_sep (rs @ ts)"
    then have "rs = rs @ ts" using assms(1,2) by (intro join_sep_inject) auto
    with assms(3) show False by simp
  qed
  moreover have "\<forall>s\<in>set (rs @ ts). valid_segment s"
    using assms(1,2) by auto
  then have "normalizeString False [] (split_sep (sep # join_sep (rs @ ts))) = rs @ ts"
    by (rule normalize_absolute)
  ultimately show ?thesis
    using normalize_absolute[OF assms(1), of False]
    by (simp add: path_relative_def Let_def drop_common_prefix)
qed

section \<open>Properties of the assembler\<close>

subsection \<open>Reconstructing the headers of the ancestors\<close>

lemma fold_part_step:
  assumes "done \<noteq> []" and "\<forall>s\<in>set done. valid_segment s" and "\<forall>s\<in>set rest. valid_segment s"
  shows "fold (part_step lastDir) rest (join_sep done, out)
         = (join_sep (done @ rest),
            out @ map dir_header (filter (\<lambda>p. \<not> startsWith lastDir p)
                    (map (\<lambda>k. join_sep (take k (done @ rest)))
                         [Suc (length done) ..< Suc (length (done @ rest))])))"
  using assms
proof (induction rest arbitrary: "done" out)
  case Nil
  then show ?case by simp
next
  case (Cons s rest)
  have ne: "join_sep done \<noteq> []"
    using Cons.prems by (intro join_sep_nonempty) (auto simp: valid_segment_def)
  have pj: "path_join (join_sep done) s = join_sep (done @ [s])"
    using Cons.prems by (intro path_join_relative) auto
  let ?out' = "if \<not> startsWith lastDir (join_sep (done @ [s]))
               then out @ [dir_header (join_sep (done @ [s]))] else out"
  have step: "part_step lastDir s (join_sep done, out) = (join_sep (done @ [s]), ?out')"
    using ne pj by (simp add: part_step_def Let_def)
  have IH: "fold (part_step lastDir) rest (join_sep (done @ [s]), ?out')
         = (join_sep ((done @ [s]) @ rest),
            ?out' @ map dir_header (filter (\<lambda>p. \<not> startsWith lastDir p)
                    (map (\<lambda>k. join_sep (take k ((done @ [s]) @ rest)))
                         [Suc (length (done @ [s])) ..< Suc (length ((done @ [s]) @ rest))])))"
    using Cons.prems by (intro Cons.IH) auto
  have upt: "[Suc (length done) ..< Suc (length (done @ s # rest))]
             = Suc (length done) # [Suc (length (done @ [s])) ..< Suc (length ((done @ [s]) @ rest))]"
    by (subst upt_rec) simp
  have tk: "take (Suc (length done)) (done @ s # rest) = done @ [s]"
    by simp
  show ?case
    unfolding fold_Cons comp_def step IH upt list.map tk
    by simp
qed

lemma fold_part_step_all:
  assumes "parts \<noteq> []" and "\<forall>s\<in>set parts. valid_segment s"
  shows "fold (part_step lastDir) parts ([], out)
         = (join_sep parts,
            out @ map dir_header (filter (\<lambda>p. \<not> startsWith lastDir p)
                    (map (\<lambda>k. join_sep (take k parts)) [1 ..< Suc (length parts)])))"
proof -
  obtain s rest where parts: "parts = s # rest" using assms(1) by (cases parts) auto
  let ?out' = "if \<not> startsWith lastDir s then out @ [dir_header s] else out"
  have step: "part_step lastDir s ([], out) = (join_sep [s], ?out')"
    by (simp add: part_step_def Let_def)
  have rest: "fold (part_step lastDir) rest (join_sep [s], ?out')
         = (join_sep ([s] @ rest),
            ?out' @ map dir_header (filter (\<lambda>p. \<not> startsWith lastDir p)
                    (map (\<lambda>k. join_sep (take k ([s] @ rest)))
                         [Suc (length [s]) ..< Suc (length ([s] @ rest))])))"
    using assms(2) parts by (intro fold_part_step) auto
  have upt: "[1 ..< Suc (length (s # rest))] = 1 # [Suc (length [s]) ..< Suc (length ([s] @ rest))]"
    by (subst upt_rec) simp
  show ?thesis
    unfolding parts fold_Cons comp_def step rest upt list.map
    by simp
qed

text \<open>
  Claim C1. For a Document entry whose parent directory differs from
  \<^verbatim>\<open>lastProcessedDirRelative\<close> and is not the root sentinel, the assembler splits the
  parent into its segments, rebuilds the ancestor prefixes from the shallowest to the
  parent itself, emits a directory header for each prefix that
  \<^verbatim>\<open>lastProcessedDirRelative\<close> (as it was before the entry) does not start with, and
  then sets \<^verbatim>\<open>lastProcessedDirRelative\<close> to the parent, whether or not a header was
  emitted. The parent is a relative path as \<^verbatim>\<open>path.relative\<close> returns it: no segment
  is empty, a dot or a double dot.
\<close>

theorem ancestor_reconstruction:
  assumes "\<not> isDirectory info"
    and "path_dirname (relativePath info) \<noteq> lastProcessedDirRelative st"
    and "path_dirname (relativePath info) \<noteq> ''.''"
    and "\<forall>s\<in>set (split_sep (path_dirname (relativePath info))). s \<noteq> [] \<and> s \<noteq> ''.'' \<and> s \<noteq> ''..''"
  shows "add_directory_headers st info
         = \<lparr>lastProcessedDirRelative = path_dirname (relativePath info),
            outputContent = outputContent st
              @ map dir_header
                  (filter (\<lambda>prefix. \<not> startsWith (lastProcessedDirRelative st) prefix)
                     (ancestor_prefixes (path_dirname (relativePath info))))\<rparr>"
proof -
  let ?parent = "path_dirname (relativePath info)"
  have valid: "\<forall>s\<in>set (split_sep ?parent). valid_segment s"
    using assms(4) split_sep_parts_no_sep[of _ ?parent] by (auto simp: valid_segment_def)
  have ne: "split_sep ?parent \<noteq> []"
    by (simp add: split_sep_def split_go_nonempty)
  show ?thesis
    using assms(1-3) fold_part_step_all[OF ne valid, of "lastProcessedDirRelative st" "outputContent st"]
    by (simp add: add_directory_headers_def ancestor_prefixes_def Let_def)
qed

theorem ancestor_reconstruction_witness:
  "\<not> isDirectory \<lparr>fullPath = ''/r/x/y/z.md'', relativePath = ''x/y/z.md'', isDirectory = False,
                   name = ''z.md''\<rparr>
   \<and> path_dirname ''x/y/z.md'' \<noteq> ''x''
   \<and> path_dirname ''x/y/z.md'' \<noteq> ''.''
   \<and> split_sep (path_dirname ''x/y/z.md'') = [''x'', ''y'']
   \<and> add_directory_headers \<lparr>lastProcessedDirRelative = ''x'', outputContent = [dir_header ''x'']\<rparr>
         \<lparr>fullPath = ''/r/x/y/z.md'', relativePath = ''x/y/z.md'', isDirectory = False,
          name = ''z.md''\<rparr>
       = \<lparr>lastProcessedDirRelative = ''x/y'',
          outputContent = [dir_header ''x'', dir_header ''x/y'']\<rparr>"
proof -
  let ?info = "\<lparr>fullPath = ''/r/x/y/z.md'', relativePath = ''x/y/z.md'', isDirectory = False,
                 name = ''z.md''\<rparr>"
  let ?st = "\<lparr>lastProcessedDirRelative = ''x'', outputContent = [dir_header ''x'']\<rparr>"
  have h1: "\<not> isDirectory ?info" by simp
  have d: "path_dirname ''x/y/z.md'' = ''x/y''" by code_simp
  have h2: "path_dirname (relativePath ?info) \<noteq> lastProcessedDirRelative ?st"
    by (simp add: d)
  have h3: "path_dirname (relativePath ?info) \<noteq> ''.''"
    by (simp add: d)
  have sp: "split_sep ''x/y'' = [''x'', ''y'']" by code_simp
  have h4: "\<forall>s\<in>set (split_sep (path_dirname (relativePath ?info))).
              s \<noteq> [] \<and> s \<noteq> ''.'' \<and> s \<noteq> ''..''"
    by (simp add: d sp)
  have pre: "filter (\<lambda>prefix. \<not> startsWith ''x'' prefix) (ancestor_prefixes ''x/y'') = [''x/y'']"
    by code_simp
  from ancestor_reconstruction [OF h1 h2 h3 h4] h1 h2 h3 show ?thesis
    by (simp add: d sp pre)
qed

subsection \<open>The last headered directory\<close>

lemma join_sep_dot: "join_sep xs = ''.'' \<Longrightarrow> xs = [''.'']"
proof (cases xs rule: join_sep.cases)
  case (3 s t ts)
  assume "join_sep xs = ''.''"
  with 3 have "s @ sep # join_sep (t # ts) = ''.''" by simp
  then have "sep \<in> set ''.''" by (metis in_set_conv_decomp)
  then show ?thesis by (simp add: sep_def)
qed auto

lemma normalizeString_no_dot:
  "''.'' \<notin> set res \<Longrightarrow> ''.'' \<notin> set (normalizeString b res segs)"
proof (induction segs arbitrary: res)
  case Nil
  then show ?case by simp
next
  case (Cons s segs)
  have bl: "''.'' \<notin> set (butlast res)"
    using Cons.prems by (meson in_set_butlastD)
  show ?case
    using Cons.IH[of res] Cons.IH[of "butlast res"] Cons.IH[of "res @ [s]"] Cons.prems bl
    by auto
qed

lemma drop_common_subset: "set (snd (drop_common xs ys)) \<subseteq> set ys"
  by (induction xs ys rule: drop_common.induct) auto

lemma path_relative_not_dot: "path_relative a b \<noteq> ''.''"
proof
  assume eq: "path_relative a b = ''.''"
  then have ne: "a \<noteq> b" by (auto simp: path_relative_def)
  let ?f = "normalizeString False [] (split_sep a)"
  let ?t = "normalizeString False [] (split_sep b)"
  obtain f' t' where dc: "drop_common ?f ?t = (f', t')" by (cases "drop_common ?f ?t")
  from eq ne dc have "join_sep (replicate (length f') ''..'' @ t') = ''.''"
    by (simp add: path_relative_def Let_def)
  then have "replicate (length f') ''..'' @ t' = [''.'']" by (rule join_sep_dot)
  then have "''.'' \<in> set (replicate (length f') ''..'') \<union> set t'"
    by (metis list.set_intros(1) set_append)
  moreover have "''.'' \<notin> set (replicate (length f') ''..'')" by auto
  moreover have "set t' \<subseteq> set ?t" using drop_common_subset[of ?f ?t] dc by simp
  moreover have "''.'' \<notin> set ?t" by (rule normalizeString_no_dot) simp
  ultimately show False by blast
qed

lemma entries_relative_aux:
  "findMarkdownRecursive lc node dirPath rootDir = Inr res \<longrightarrow>
     (\<forall>e\<in>set res. relativePath e \<noteq> ''.'')"
  "for_dirents lc ds dirPath rootDir acc = Inr res' \<longrightarrow>
     (\<forall>e\<in>set acc. relativePath e \<noteq> ''.'') \<longrightarrow> (\<forall>e\<in>set res'. relativePath e \<noteq> ''.'')"
proof (induction lc node dirPath rootDir and lc ds dirPath rootDir acc
       arbitrary: res and res' rule: findMarkdownRecursive_for_dirents.induct)
  case (1 lc n cs dirPath rootDir)
  then show ?case by simp
next
  case (6 lc dirent rest dirPath rootDir results)
  have own: "relativePath (mk_info dirPath rootDir dirent) \<noteq> ''.''"
    by (simp add: path_relative_not_dot)
  show ?case
  proof (cases "dirent_isDirectory dirent")
    case True
    show ?thesis
    proof (cases "findMarkdownRecursive lc dirent (path_join dirPath (dirent_name dirent)) rootDir")
      case (Inl e)
      with True show ?thesis by simp
    next
      case (Inr sub)
      from "6.IH"(1)[OF True, of sub] Inr
      have sub: "\<forall>e\<in>set sub. relativePath e \<noteq> ''.''" by simp
      from "6.IH"(2)[OF True Inr, of res'] sub own True Inr show ?thesis by auto
    qed
  next
    case False
    show ?thesis
    proof (cases "dirent_isFile dirent \<and> endsWith (toLowerCase (dirent_name dirent)) ''.md''")
      case True
      from "6.IH"(3)[OF False True, of res'] own False True show ?thesis by auto
    next
      case F2: False
      from "6.IH"(4)[OF False F2, of res'] False F2 show ?thesis by auto
    qed
  qed
qed simp_all

lemma add_file_last [simp]:
  "lastProcessedDirRelative (add_file rf st info) = lastProcessedDirRelative st"
  by (simp add: add_file_def Let_def split: option.splits)

text \<open>
  Claim C8, as amended. In a pass over the entries of a scan,
  \<^verbatim>\<open>lastProcessedDirRelative\<close> starts at the root sentinel; each entry leaves it as it
  is, or sets it to the relative path of a Directory entry, or to the parent directory of
  a Document entry; and once it has left the root sentinel it never returns to it.
\<close>

theorem last_directory_transitions:
  assumes "findMarkdownRecursive lc node dirPath rootDir = Inr (pre @ info # post)"
  shows "lastProcessedDirRelative (assemble_from rf initial_assembly []) = ''.''
         \<and> (lastProcessedDirRelative (process_entry rf (assemble_from rf initial_assembly pre) info)
               = lastProcessedDirRelative (assemble_from rf initial_assembly pre)
             \<or> isDirectory info
                \<and> lastProcessedDirRelative (process_entry rf (assemble_from rf initial_assembly pre) info)
                    = relativePath info
             \<or> \<not> isDirectory info
                \<and> lastProcessedDirRelative (process_entry rf (assemble_from rf initial_assembly pre) info)
                    = path_dirname (relativePath info))
         \<and> (lastProcessedDirRelative (assemble_from rf initial_assembly pre) \<noteq> ''.''
              \<longrightarrow> lastProcessedDirRelative
                    (process_entry rf (assemble_from rf initial_assembly pre) info) \<noteq> ''.'')"
proof -
  have "info \<in> set (pre @ info # post)" by simp
  with entries_relative_aux(1)[of lc node dirPath rootDir "pre @ info # post"] assms
  have nd: "relativePath info \<noteq> ''.''" by blast
  show ?thesis
    using nd
    by (auto simp: initial_assembly_def process_entry_def add_directory_headers_def Let_def)
qed

theorem last_directory_transitions_witness:
  "lastProcessedDirRelative
     (assemble_from nested_files initial_assembly (take 3 nested_entries)) = ''x/y''
   \<and> lastProcessedDirRelative
       (process_entry nested_files
          (assemble_from nested_files initial_assembly (take 3 nested_entries))
          (nested_entries ! 3)) \<noteq> ''.''"
proof -
  have scan: "findMarkdownRecursive default_collation nested_tree ''/r'' ''/r''
              = Inr (take 3 nested_entries @ nested_entries ! 3 # [])"
    by code_simp
  have a: "lastProcessedDirRelative
     (assemble_from nested_files initial_assembly (take 3 nested_entries)) = ''x/y''"
    by code_simp
  from last_directory_transitions [OF scan, of nested_files] a show ?thesis
    by simp
qed

text \<open>
  Claim C8 as stated does not hold: the variable can return to an earlier value. In a
  directory \<^verbatim>\<open>x\<close> that holds the subdirectory \<^verbatim>\<open>y\<close> and a document of its own, the
  variable goes from \<^verbatim>\<open>x\<close> to \<^verbatim>\<open>x/y\<close> and, at the document of \<^verbatim>\<open>x\<close>, back to \<^verbatim>\<open>x\<close>.
\<close>

theorem last_directory_rolls_back:
  "findMarkdownRecursive default_collation nested_tree ''/r'' ''/r'' = Inr nested_entries
   \<and> last_trace nested_files initial_assembly nested_entries = [''x'', ''x/y'', ''x/y'', ''x'']"
  by code_simp

subsection \<open>Well-formed trees\<close>

lemma dirname_scan_none:
  "(\<And>i. 1 \<le> i \<Longrightarrow> i \<le> k \<Longrightarrow> p ! i \<noteq> sep) \<Longrightarrow> dirname_scan p k m = None"
proof (induction k arbitrary: m)
  case 0
  then show ?case by simp
next
  case (Suc k)
  have "p ! Suc k \<noteq> sep" using Suc.prems[of "Suc k"] by simp
  moreover have "dirname_scan p k False = None"
    using Suc.prems by (intro Suc.IH) auto
  ultimately show ?case by simp
qed

lemma dirname_scan_found:
  assumes "A \<noteq> []" and "sep \<notin> set n"
  shows "1 \<le> k \<Longrightarrow> k \<le> length n \<Longrightarrow> dirname_scan (A @ sep # n) (length A + k) m = Some (length A)"
proof (induction k arbitrary: m)
  case 0
  then show ?case by simp
next
  case (Suc k)
  have nth: "(A @ sep # n) ! (length A + Suc k) = n ! k"
    by (simp add: nth_append)
  have "n ! k \<in> set n" using Suc.prems by simp
  with assms(2) have ns: "n ! k \<noteq> sep" by auto
  show ?case
  proof (cases "k = 0")
    case True
    obtain j where j: "length A = Suc j" using assms(1) by (cases A) auto
    have "(A @ sep # n) ! Suc j = sep" using j by (simp add: nth_append)
    then have "dirname_scan (A @ sep # n) (Suc j) False = Some (Suc j)" by simp
    then have "dirname_scan (A @ sep # n) (length A) False = Some (length A)" using j by simp
    moreover have "dirname_scan (A @ sep # n) (length A + Suc k) m
                   = dirname_scan (A @ sep # n) (length A + k) False"
      using nth ns by simp
    ultimately show ?thesis using True by simp
  next
    case False
    then have "dirname_scan (A @ sep # n) (length A + k) False = Some (length A)"
      using Suc.prems by (intro Suc.IH) auto
    moreover have "dirname_scan (A @ sep # n) (length A + Suc k) m
                   = dirname_scan (A @ sep # n) (length A + k) False"
      using nth ns by simp
    ultimately show ?thesis by simp
  qed
qed

lemma path_dirname_single:
  assumes "valid_segment n"
  shows "path_dirname n = ''.''"
proof -
  have n: "n \<noteq> []" "hd n \<noteq> sep" "sep \<notin> set n"
    using assms valid_segment_ends[of n] by (auto simp: valid_segment_def)
  have "dirname_scan n (length n - 1) True = None"
  proof (rule dirname_scan_none)
    fix i assume "1 \<le> i" "i \<le> length n - 1"
    then have "n ! i \<in> set n" using n(1) by (intro nth_mem) (cases n, auto)
    with n(3) show "n ! i \<noteq> sep" by auto
  qed
  with n show ?thesis by (simp add: path_dirname_def Let_def)
qed

lemma path_dirname_join:
  assumes "ds \<noteq> []" and "\<forall>s\<in>set ds. valid_segment s" and "valid_segment n"
  shows "path_dirname (join_sep (ds @ [n])) = join_sep ds"
proof -
  let ?A = "join_sep ds"
  have n: "n \<noteq> []" "sep \<notin> set n"
    using assms(3) by (auto simp: valid_segment_def)
  have A: "?A \<noteq> []"
    using assms by (intro join_sep_nonempty) (auto simp: valid_segment_def)
  have hA: "hd ?A \<noteq> sep"
    using assms hd_join_sep[of ds] valid_segment_ends[of "hd ds"] by simp
  have p: "join_sep (ds @ [n]) = ?A @ sep # n"
    using assms(1) by (rule join_sep_snoc)
  have "dirname_scan (?A @ sep # n) (length ?A + length n) True = Some (length ?A)"
    using n by (intro dirname_scan_found[OF A n(2)]) (cases n, auto)
  then show ?thesis
    using A hA by (simp add: p path_dirname_def Let_def)
qed

lemma mk_info_absolute:
  assumes "\<forall>s\<in>set rs. valid_segment s" and "\<forall>s\<in>set ds. valid_segment s"
    and "valid_segment (dirent_name d)"
  shows "mk_info (sep # join_sep (rs @ ds)) (sep # join_sep rs) d
         = \<lparr>fullPath = sep # join_sep (rs @ ds @ [dirent_name d]),
            relativePath = join_sep (ds @ [dirent_name d]),
            isDirectory = dirent_isDirectory d,
            name = dirent_name d\<rparr>"
proof -
  have v: "\<forall>s\<in>set (rs @ ds). valid_segment s" using assms(1,2) by auto
  have j: "path_join (sep # join_sep (rs @ ds)) (dirent_name d)
           = sep # join_sep (rs @ ds @ [dirent_name d])"
    using path_join_absolute[OF v assms(3)] by simp
  have "path_relative (sep # join_sep rs) (sep # join_sep (rs @ (ds @ [dirent_name d])))
        = join_sep (ds @ [dirent_name d])"
    using assms by (intro path_relative_absolute) auto
  with j show ?thesis by (simp add: mk_info_def Let_def)
qed

lemma dir_rels_simps [simp]:
  "dir_rels [] = {}"
  "dir_rels (e # es) = (if isDirectory e then insert (relativePath e) (dir_rels es) else dir_rels es)"
  "dir_rels (xs @ ys) = dir_rels xs \<union> dir_rels ys"
  by (auto simp: dir_rels_def)

lemma parents_ok_append:
  "parents_ok D seen (xs @ ys) \<longleftrightarrow> parents_ok D seen xs \<and> parents_ok D (seen \<union> dir_rels xs) ys"
proof (induction xs arbitrary: seen)
  case Nil
  then show ?case by simp
next
  case (Cons e xs)
  show ?case
  proof (cases "isDirectory e")
    case True
    have "insert (relativePath e) seen \<union> dir_rels xs = seen \<union> insert (relativePath e) (dir_rels xs)"
      by auto
    with True Cons[of "insert (relativePath e) seen"] show ?thesis by simp
  next
    case False
    with Cons[of seen] show ?thesis by simp
  qed
qed

lemma parents_ok_weaken:
  "parents_ok D seen es \<Longrightarrow> D = D' \<or> D \<in> seen' \<Longrightarrow> seen \<subseteq> seen' \<Longrightarrow> parents_ok D' seen' es"
proof (induction es arbitrary: seen seen')
  case Nil
  then show ?case by simp
next
  case (Cons e es)
  let ?s = "if isDirectory e then insert (relativePath e) seen else seen"
  let ?s' = "if isDirectory e then insert (relativePath e) seen' else seen'"
  from Cons.prems have hd: "isDirectory e \<or> path_dirname (relativePath e) = D'
                             \<or> path_dirname (relativePath e) \<in> seen'"
    by auto
  from Cons.prems have tl: "parents_ok D ?s es" by simp
  have "parents_ok D' ?s' es"
    using tl Cons.prems(2,3) by (intro Cons.IH[of ?s ?s']) auto
  with hd show ?case by simp
qed

lemma add_directory_headers_last:
  "lastProcessedDirRelative (add_directory_headers st info)
     = (if isDirectory info \<and> relativePath info \<noteq> lastProcessedDirRelative st
        then relativePath info
        else if \<not> isDirectory info
                \<and> path_dirname (relativePath info) \<noteq> lastProcessedDirRelative st
                \<and> path_dirname (relativePath info) \<noteq> ''.''
        then path_dirname (relativePath info)
        else lastProcessedDirRelative st)"
  by (simp add: add_directory_headers_def Let_def)

lemma last_in_seen:
  "parents_ok ''.'' seen es \<Longrightarrow> lastProcessedDirRelative st \<in> insert ''.'' seen \<Longrightarrow>
   lastProcessedDirRelative (assemble_from rf st es) \<in> insert ''.'' (seen \<union> dir_rels es)"
proof (induction es arbitrary: st seen)
  case Nil
  then show ?case by simp
next
  case (Cons e es)
  let ?s = "if isDirectory e then insert (relativePath e) seen else seen"
  let ?st = "process_entry rf st e"
  have l: "lastProcessedDirRelative ?st \<in> insert ''.'' ?s"
    using Cons.prems by (auto simp: process_entry_def add_directory_headers_last)
  from Cons.prems(1) have "parents_ok ''.'' ?s es" by simp
  from Cons.IH[OF this l] have "lastProcessedDirRelative (assemble_from rf ?st es)
                                  \<in> insert ''.'' (?s \<union> dir_rels es)" .
  then show ?case by (auto split: if_splits)
qed

lemma below_mono: "below ds names e \<Longrightarrow> names \<subseteq> names' \<Longrightarrow> below ds names' e"
  unfolding below_def by blast

lemma below_deeper:
  assumes "below (ds @ [n]) names e" and "valid_segment n"
  shows "below ds {n} e"
proof -
  from assms(1) obtain ts where ts: "ts \<noteq> []" "\<forall>t\<in>set ts. valid_segment t"
    "relativePath e = join_sep ((ds @ [n]) @ ts)"
    unfolding below_def by blast
  have "n # ts \<noteq> [] \<and> (\<forall>t\<in>set (n # ts). valid_segment t) \<and> hd (n # ts) \<in> {n}
        \<and> relativePath e = join_sep (ds @ (n # ts))"
    using ts assms(2) by simp
  then show ?thesis unfolding below_def by blast
qed

lemma below_differ:
  assumes "\<forall>s\<in>set ds. valid_segment s"
    and "below ds A e" and "below ds B e'" and "A \<inter> B = {}"
  shows "relativePath e \<noteq> relativePath e'"
proof
  assume eq: "relativePath e = relativePath e'"
  from assms(2) obtain ts where ts: "ts \<noteq> []" "\<forall>t\<in>set ts. valid_segment t" "hd ts \<in> A"
    "relativePath e = join_sep (ds @ ts)" unfolding below_def by blast
  from assms(3) obtain us where us: "us \<noteq> []" "\<forall>t\<in>set us. valid_segment t" "hd us \<in> B"
    "relativePath e' = join_sep (ds @ us)" unfolding below_def by blast
  have "ds @ ts = ds @ us"
    using eq ts us assms(1) by (intro join_sep_inject) auto
  then have "hd ts = hd us" by simp
  with ts(3) us(3) assms(4) show False by auto
qed

lemma below_not_own:
  assumes "\<forall>s\<in>set ds. valid_segment s" and "valid_segment n"
    and "below (ds @ [n]) names e"
  shows "relativePath e \<noteq> join_sep (ds @ [n])"
proof
  assume eq: "relativePath e = join_sep (ds @ [n])"
  from assms(3) obtain ts where ts: "ts \<noteq> []" "\<forall>t\<in>set ts. valid_segment t"
    "relativePath e = join_sep ((ds @ [n]) @ ts)" unfolding below_def by blast
  have "(ds @ [n]) @ ts = ds @ [n]"
    using eq ts assms(1,2) by (intro join_sep_inject) auto
  with ts(1) show False by simp
qed

lemma dir_paths_not_directory: "\<not> dirent_isDirectory d \<Longrightarrow> dir_paths d = []"
  by (cases d) simp_all

lemma for_dirents_file:
  assumes "for_dirents lc (d # ds) dirPath rootDir [] = Inr res" and "\<not> dirent_isDirectory d"
  shows "\<exists>post. for_dirents lc ds dirPath rootDir [] = Inr post
           \<and> res = (if kept d then mk_info dirPath rootDir d # post else post)"
proof (cases "kept d")
  case True
  with assms have "for_dirents lc ds dirPath rootDir [mk_info dirPath rootDir d] = Inr res"
    by (simp add: kept_def qualifies_def)
  then obtain post where "for_dirents lc ds dirPath rootDir [] = Inr post"
    and "res = mk_info dirPath rootDir d # post"
    by (subst (asm) for_dirents_acc) (auto split: sum.splits)
  with True show ?thesis by simp
next
  case False
  with assms have "for_dirents lc ds dirPath rootDir [] = Inr res"
    by (auto simp: kept_def qualifies_def)
  with False show ?thesis by simp
qed

lemma for_dirents_scan_ok:
  assumes rs: "\<forall>s\<in>set rs. valid_segment s" and ds: "\<forall>s\<in>set ds. valid_segment s"
  shows "(\<And>c sub. c \<in> set cs \<Longrightarrow> dirent_isDirectory c \<Longrightarrow>
             findMarkdownRecursive lc c (sep # join_sep (rs @ ds @ [dirent_name c])) (sep # join_sep rs)
               = Inr sub \<Longrightarrow>
             scan_ok (ds @ [dirent_name c]) (children c) sub) \<Longrightarrow>
         \<forall>c\<in>set cs. valid_segment (dirent_name c) \<Longrightarrow>
         distinct (map dirent_name cs) \<Longrightarrow>
         for_dirents lc cs (sep # join_sep (rs @ ds)) (sep # join_sep rs) [] = Inr res \<Longrightarrow>
         scan_ok ds cs res"
proof (induction cs arbitrary: res)
  case Nil
  then show ?case by (simp add: scan_ok_def)
next
  case (Cons d rest)
  let ?dp = "sep # join_sep (rs @ ds)"
  let ?root = "sep # join_sep rs"
  let ?n = "dirent_name d"
  define own where "own = mk_info (sep # join_sep (rs @ ds)) (sep # join_sep rs) d"
  let ?D = "if ds = [] then ''.'' else join_sep ds"
  have vn: "valid_segment ?n" using Cons.prems(2) by simp
  have vrd: "\<forall>s\<in>set (rs @ ds). valid_segment s" using rs ds by auto
  have vdn: "\<forall>s\<in>set (ds @ [?n]). valid_segment s" using ds vn by auto
  have rel_own: "relativePath own = join_sep (ds @ [?n])"
    unfolding own_def using mk_info_absolute[OF rs ds vn] by simp
  have dir_own: "isDirectory own = dirent_isDirectory d"
    unfolding own_def by simp
  have pj: "path_join ?dp ?n = sep # join_sep (rs @ ds @ [?n])"
    using path_join_absolute[OF vrd vn] by simp
  have dn: "path_dirname (join_sep (ds @ [?n])) = ?D"
  proof (cases "ds = []")
    case True
    then show ?thesis using path_dirname_single[OF vn] by simp
  next
    case False
    then show ?thesis using path_dirname_join[OF False ds vn] by simp
  qed
  have own_below: "below ds {?n} own"
    unfolding below_def using rel_own vn by (intro exI[of _ "[?n]"]) simp
  have fresh: "?n \<notin> dirent_name ` set rest" using Cons.prems(3) by simp
  have disj: "{?n} \<inter> dirent_name ` set rest = {}" using fresh by simp
  have IH: "scan_ok ds rest post" if "for_dirents lc rest ?dp ?root [] = Inr post" for post
    using Cons.prems(1,2,3) that by (intro Cons.IH) auto
  show ?case
  proof (cases "dirent_isDirectory d")
    case True
    from for_dirents_directory[OF Cons.prems(4) True] obtain sub post
      where res: "res = own # sub @ post"
        and scan: "findMarkdownRecursive lc d (path_join ?dp ?n) ?root = Inr sub"
        and loop: "for_dirents lc rest ?dp ?root [] = Inr post"
      unfolding own_def by blast
    have S: "scan_ok (ds @ [?n]) (children d) sub"
      using Cons.prems(1)[of d sub] True scan pj by simp
    have R: "scan_ok ds rest post" by (rule IH[OF loop])
    have sub_below: "below ds {?n} e" if "e \<in> set sub" for e
      using S that vn unfolding scan_ok_def by (blast intro: below_deeper)
    have post_below: "below ds (dirent_name ` set rest) e" if "e \<in> set post" for e
      using R that unfolding scan_ok_def by blast
    have g1: "\<forall>e\<in>set res. below ds (dirent_name ` set (d # rest)) e"
    proof
      fix e assume "e \<in> set res"
      then consider "e = own" | "e \<in> set sub" | "e \<in> set post" using res by auto
      then show "below ds (dirent_name ` set (d # rest)) e"
      proof cases
        case 1
        then show ?thesis using own_below by (auto intro: below_mono)
      next
        case 2
        then show ?thesis using sub_below[of e] by (auto intro: below_mono)
      next
        case 3
        then show ?thesis using post_below[of e] by (auto intro: below_mono)
      qed
    qed
    have own_sub: "relativePath own \<notin> relativePath ` set sub"
    proof
      assume "relativePath own \<in> relativePath ` set sub"
      then obtain e where e: "e \<in> set sub" "relativePath e = join_sep (ds @ [?n])"
        using rel_own by auto
      from S e(1) have "below (ds @ [?n]) (dirent_name ` set (children d)) e"
        unfolding scan_ok_def by blast
      from below_not_own[OF ds vn this] e(2) show False by simp
    qed
    have own_post: "relativePath own \<notin> relativePath ` set post"
    proof
      assume "relativePath own \<in> relativePath ` set post"
      then obtain e where e: "e \<in> set post" "relativePath own = relativePath e" by auto
      from below_differ[OF ds own_below post_below[OF e(1)] disj] e(2) show False by simp
    qed
    have sub_post: "relativePath ` set sub \<inter> relativePath ` set post = {}"
    proof (rule ccontr)
      assume "relativePath ` set sub \<inter> relativePath ` set post \<noteq> {}"
      then obtain e e' where e: "e \<in> set sub" "e' \<in> set post" "relativePath e = relativePath e'"
        by auto
      from below_differ[OF ds sub_below[OF e(1)] post_below[OF e(2)] disj] e(3)
      show False by simp
    qed
    have g2: "distinct (map relativePath res)"
      using S R own_sub own_post sub_post unfolding scan_ok_def res by simp
    have "parents_ok (join_sep (ds @ [?n])) {} sub"
      using S unfolding scan_ok_def by simp
    moreover have "join_sep (ds @ [?n]) = ?D \<or> join_sep (ds @ [?n]) \<in> {relativePath own}"
      unfolding rel_own by blast
    moreover have "{} \<subseteq> {relativePath own}" by blast
    ultimately have p_sub: "parents_ok ?D {relativePath own} sub"
      by (rule parents_ok_weaken)
    have "parents_ok ?D {} post" using R unfolding scan_ok_def by simp
    moreover have "?D = ?D \<or> ?D \<in> {relativePath own} \<union> dir_rels sub" by blast
    moreover have "{} \<subseteq> {relativePath own} \<union> dir_rels sub" by blast
    ultimately have p_post: "parents_ok ?D ({relativePath own} \<union> dir_rels sub) post"
      by (rule parents_ok_weaken)
    have g3: "parents_ok ?D {} res"
      unfolding res using True p_sub p_post dir_own by (simp add: parents_ok_append)
    have g4: "\<forall>c\<in>set (d # rest). \<forall>p\<in>set (dir_paths c).
                \<exists>e\<in>set res. isDirectory e \<and> relativePath e = join_sep (ds @ p)"
    proof (intro ballI)
      fix c p assume c: "c \<in> set (d # rest)" and p: "p \<in> set (dir_paths c)"
      show "\<exists>e\<in>set res. isDirectory e \<and> relativePath e = join_sep (ds @ p)"
      proof (cases "c = d")
        case False
        with c have "c \<in> set rest" by simp
        with R p obtain e where "e \<in> set post" "isDirectory e" "relativePath e = join_sep (ds @ p)"
          unfolding scan_ok_def by blast
        then show ?thesis using res by auto
      next
        case cd: True
        show ?thesis
        proof (cases d)
          case (Directory m cs')
          with p cd consider "p = [m]" | p' c' where "p = m # p'" "c' \<in> set cs'" "p' \<in> set (dir_paths c')"
            by auto
          then show ?thesis
          proof cases
            case 1
            then show ?thesis using res rel_own dir_own True Directory by auto
          next
            case 2
            with S Directory obtain e where "e \<in> set sub" "isDirectory e"
              "relativePath e = join_sep ((ds @ [m]) @ p')"
              unfolding scan_ok_def by fastforce
            then show ?thesis using res 2(1) by auto
          qed
        next
          case (Unlistable m)
          with scan show ?thesis by simp
        next
          case (RegularFile m)
          with True show ?thesis by simp
        next
          case (Special m)
          with True show ?thesis by simp
        qed
      qed
    qed
    from g1 g2 g3 g4 show ?thesis unfolding scan_ok_def by blast
  next
    case False
    from for_dirents_file[OF Cons.prems(4) False] obtain post
      where loop: "for_dirents lc rest ?dp ?root [] = Inr post"
        and res: "res = (if kept d then own # post else post)"
      unfolding own_def by blast
    have R: "scan_ok ds rest post" by (rule IH[OF loop])
    have post_below: "below ds (dirent_name ` set rest) e" if "e \<in> set post" for e
      using R that unfolding scan_ok_def by blast
    have g1: "\<forall>e\<in>set res. below ds (dirent_name ` set (d # rest)) e"
    proof
      fix e assume "e \<in> set res"
      then consider "e = own" | "e \<in> set post" using res by (auto split: if_splits)
      then show "below ds (dirent_name ` set (d # rest)) e"
      proof cases
        case 1
        then show ?thesis using own_below by (auto intro: below_mono)
      next
        case 2
        then show ?thesis using post_below[of e] by (auto intro: below_mono)
      qed
    qed
    have own_post: "relativePath own \<notin> relativePath ` set post"
    proof
      assume "relativePath own \<in> relativePath ` set post"
      then obtain e where e: "e \<in> set post" "relativePath own = relativePath e" by auto
      from below_differ[OF ds own_below post_below[OF e(1)] disj] e(2) show False by simp
    qed
    have g2: "distinct (map relativePath res)"
      using R own_post unfolding scan_ok_def res by simp
    have pp: "parents_ok ?D {} post" using R unfolding scan_ok_def by simp
    have g3: "parents_ok ?D {} res"
      unfolding res using False pp dn dir_own by (simp add: rel_own)
    have g4: "\<forall>c\<in>set (d # rest). \<forall>p\<in>set (dir_paths c).
                \<exists>e\<in>set res. isDirectory e \<and> relativePath e = join_sep (ds @ p)"
    proof (intro ballI)
      fix c p assume c: "c \<in> set (d # rest)" and p: "p \<in> set (dir_paths c)"
      from p False have "c \<noteq> d" using dir_paths_not_directory[of d] by auto
      with c have "c \<in> set rest" by simp
      with R p obtain e where "e \<in> set post" "isDirectory e" "relativePath e = join_sep (ds @ p)"
        unfolding scan_ok_def by blast
      then show "\<exists>e\<in>set res. isDirectory e \<and> relativePath e = join_sep (ds @ p)"
        using res by auto
    qed
    from g1 g2 g3 g4 show ?thesis unfolding scan_ok_def by blast
  qed
qed

lemma scan_ok_set: "set cs = set cs' \<Longrightarrow> scan_ok ds cs res = scan_ok ds cs' res"
  by (simp add: scan_ok_def)

lemma scan_ok_node:
  assumes rs: "\<forall>s\<in>set rs. valid_segment s"
  shows "wf_tree node \<Longrightarrow> \<forall>s\<in>set ds. valid_segment s \<Longrightarrow>
         findMarkdownRecursive lc node (sep # join_sep (rs @ ds)) (sep # join_sep rs) = Inr res \<Longrightarrow>
         scan_ok ds (children node) res"
proof (induction node arbitrary: ds res)
  case (Directory n cs)
  let ?sorted = "sort_by (compare_dirents lc) cs"
  have set_eq: "set ?sorted = set cs" by (rule set_sort_by)
  have "mset (map dirent_name ?sorted) = mset (map dirent_name cs)"
    by (simp add: mset_sort_by)
  then have dist: "distinct (map dirent_name ?sorted)"
    using Directory.prems(1) mset_eq_imp_distinct_iff by fastforce
  have names: "\<forall>c\<in>set ?sorted. valid_segment (dirent_name c)"
  proof
    fix c assume "c \<in> set ?sorted"
    then have "wf_tree c" using Directory.prems(1) set_eq by (simp add: list_all_iff)
    then show "valid_segment (dirent_name c)" by (cases c) simp_all
  qed
  have loop: "for_dirents lc ?sorted (sep # join_sep (rs @ ds)) (sep # join_sep rs) [] = Inr res"
    using Directory.prems(3) by simp
  have sub: "scan_ok (ds @ [dirent_name c]) (children c) sub"
    if "c \<in> set ?sorted" "dirent_isDirectory c"
      "findMarkdownRecursive lc c (sep # join_sep (rs @ ds @ [dirent_name c])) (sep # join_sep rs)
         = Inr sub" for c sub
  proof -
    have c: "c \<in> set cs" using that(1) set_eq by simp
    then have wf: "wf_tree c" using Directory.prems(1) by (simp add: list_all_iff)
    have v: "\<forall>s\<in>set (ds @ [dirent_name c]). valid_segment s"
      using Directory.prems(2) names that(1) by auto
    from Directory.IH[OF c wf v, of sub] that(3) show ?thesis by simp
  qed
  have "scan_ok ds ?sorted res"
    using for_dirents_scan_ok[OF rs Directory.prems(2), of ?sorted lc res] sub names dist loop
    by blast
  then show ?case using scan_ok_set[OF set_eq] by simp
qed simp_all

lemma process_directory_entry:
  assumes "isDirectory e" and "relativePath e \<noteq> lastProcessedDirRelative st"
  shows "process_entry rf st e
         = \<lparr>lastProcessedDirRelative = relativePath e,
            outputContent = outputContent st @ [dir_header (relativePath e)]\<rparr>"
  using assms by (simp add: process_entry_def add_directory_headers_def add_file_def Let_def)

subsection \<open>Directories without documents\<close>

text \<open>
  Claim C4, as amended. Every directory of the tree, at any depth and whatever it
  contains (a directory without any qualifying document included), has its Directory
  entry in the list of the scanner, and when the assembler reaches that entry it appends
  the directory header of the entry and nothing else. The tree is as a file system holds
  it (valid, distinct names) and the root path is absolute and normalised.
\<close>

theorem every_directory_headered:
  assumes "\<forall>s\<in>set rs. valid_segment s" and "rootDir = sep # join_sep rs"
    and "distinct (map dirent_name cs)" and "list_all wf_tree cs"
    and "findMarkdownRecursive lc (Directory n cs) rootDir rootDir = Inr res"
    and "c \<in> set cs" and "p \<in> set (dir_paths c)"
  shows "\<exists>pre e post. res = pre @ e # post \<and> isDirectory e \<and> relativePath e = join_sep p
           \<and> process_entry rf (assemble_from rf initial_assembly pre) e
               = \<lparr>lastProcessedDirRelative = join_sep p,
                  outputContent = outputContent (assemble_from rf initial_assembly pre)
                    @ [dir_header (join_sep p)]\<rparr>"
proof -
  have wf: "wf_tree (Directory ''root'' cs)"
    using assms(3,4) by (simp add: valid_segment_def sep_def)
  have scan: "findMarkdownRecursive lc (Directory ''root'' cs) (sep # join_sep (rs @ []))
                (sep # join_sep rs) = Inr res"
    using assms(2,5) by simp
  have ok: "scan_ok [] cs res"
    using scan_ok_node[OF assms(1) wf _ scan] by simp
  from ok assms(6,7) obtain e where e: "e \<in> set res" "isDirectory e" "relativePath e = join_sep p"
    unfolding scan_ok_def by fastforce
  from e(1) obtain pre post where res: "res = pre @ e # post"
    by (meson split_list)
  from ok have "parents_ok ''.'' {} res" unfolding scan_ok_def by simp
  then have "parents_ok ''.'' {} pre" unfolding res by (simp add: parents_ok_append)
  from last_in_seen[OF this, of initial_assembly rf]
  have l: "lastProcessedDirRelative (assemble_from rf initial_assembly pre) \<in> insert ''.'' (dir_rels pre)"
    by (simp add: initial_assembly_def)
  from ok have "distinct (map relativePath res)" unfolding scan_ok_def by simp
  then have "relativePath e \<notin> relativePath ` set pre" unfolding res by auto
  then have n1: "relativePath e \<notin> dir_rels pre" unfolding dir_rels_def by blast
  have n2: "relativePath e \<noteq> ''.''"
    using entries_relative_aux(1)[of lc "Directory n cs" rootDir rootDir res] assms(5) e(1) by blast
  from l n1 n2 have ne: "relativePath e \<noteq> lastProcessedDirRelative (assemble_from rf initial_assembly pre)"
    by auto
  from process_directory_entry[OF e(2) ne, of rf] e(3)
  have "process_entry rf (assemble_from rf initial_assembly pre) e
               = \<lparr>lastProcessedDirRelative = join_sep p,
                  outputContent = outputContent (assemble_from rf initial_assembly pre)
                    @ [dir_header (join_sep p)]\<rparr>"
    by simp
  with res e(2,3) show ?thesis by blast
qed

theorem every_directory_headered_witness:
  "list_all valid_segment [''r'']
   \<and> distinct (map dirent_name (children barren_tree))
   \<and> list_all wf_tree (children barren_tree)
   \<and> (\<exists>pre e post. barren_entries = pre @ e # post \<and> isDirectory e
         \<and> relativePath e = ''drafts/old''
         \<and> process_entry barren_files (assemble_from barren_files initial_assembly pre) e
             = \<lparr>lastProcessedDirRelative = ''drafts/old'',
                outputContent = outputContent (assemble_from barren_files initial_assembly pre)
                  @ [dir_header ''drafts/old'']\<rparr>)"
proof -
  let ?drafts = "Directory ''drafts'' [RegularFile ''todo.txt'', Directory ''old'' []]"
  have v: "\<forall>s\<in>set [''r'']. valid_segment s" by code_simp
  have v': "list_all valid_segment [''r'']" by code_simp
  have r: "''/r'' = sep # join_sep [''r'']" by code_simp
  have ch: "children barren_tree = [?drafts]" by (simp add: barren_tree_def)
  have d: "distinct (map dirent_name [?drafts])" by simp
  have w: "list_all wf_tree [?drafts]" by code_simp
  have scan: "findMarkdownRecursive default_collation (Directory ''r'' [?drafts]) ''/r'' ''/r''
                = Inr barren_entries"
    by code_simp
  have c: "?drafts \<in> set [?drafts]" by simp
  have p: "[''drafts'', ''old''] \<in> set (dir_paths ?drafts)" by simp
  have j: "join_sep [''drafts'', ''old''] = ''drafts/old''" by code_simp
  from every_directory_headered [OF v r d w scan c p, of barren_files] v' d w
  show ?thesis by (simp only: ch j)
qed

text \<open>
  Claim C4 as stated does not hold: a directory without any qualifying document does
  contribute its header. The directory \<^verbatim>\<open>drafts\<close> holds a text file and an empty
  directory; the output is the two directory headers.
\<close>

theorem barren_directory_headered:
  "findMarkdownRecursive default_collation barren_tree ''/r'' ''/r'' = Inr barren_entries
   \<and> assemble barren_files barren_entries = dir_header ''drafts'' @ dir_header ''drafts/old''"
  by code_simp

subsection \<open>A root file and a subdirectory\<close>

text \<open>
  Claim C3, as amended. For the tree whose root holds the file \<^verbatim>\<open>a.md\<close> and the
  subdirectory \<^verbatim>\<open>sub\<close> with \<^verbatim>\<open>b.md\<close>, under any root path, collation and listing order,
  the output is, in order: the directory header of \<^verbatim>\<open>sub\<close>, the file header of
  \<^verbatim>\<open>b.md\<close>, its body, a separator; then the file header of \<^verbatim>\<open>a.md\<close>, its body and a
  separator. The output of the subdirectory precedes that of the file of the root.
\<close>

theorem subdirectory_before_root_file:
  assumes "\<forall>s\<in>set rs. valid_segment s" and "rootDir = sep # join_sep rs"
    and "cs = [RegularFile ''a.md'', Directory ''sub'' [RegularFile ''b.md'']]
         \<or> cs = [Directory ''sub'' [RegularFile ''b.md''], RegularFile ''a.md'']"
    and "rf (sep # join_sep (rs @ [''a.md''])) = Some body_a"
    and "rf (sep # join_sep (rs @ [''sub'', ''b.md''])) = Some body_b"
  shows "\<exists>infos. findMarkdownRecursive lc (Directory n cs) rootDir rootDir = Inr infos
           \<and> map relativePath infos = [''sub'', ''sub/b.md'', ''a.md'']
           \<and> assemble rf infos
               = dir_header ''sub'' @ file_header ''b.md'' @ body_b @ separator
                 @ file_header ''a.md'' @ body_a @ separator"
proof -
  let ?sub = "Directory ''sub'' [RegularFile ''b.md'']"
  have v: "valid_segment ''sub''" "valid_segment ''b.md''" "valid_segment ''a.md''"
    by (simp_all add: valid_segment_def sep_def)
  have vsub: "\<forall>s\<in>set (rs @ [''sub'']). valid_segment s"
    using assms(1) v by simp
  have jsub: "path_join rootDir ''sub'' = sep # join_sep (rs @ [''sub''])"
    unfolding assms(2) by (rule path_join_absolute[OF assms(1) v(1)])
  have ja: "path_join rootDir ''a.md'' = sep # join_sep (rs @ [''a.md''])"
    unfolding assms(2) by (rule path_join_absolute[OF assms(1) v(3)])
  have jb: "path_join (path_join rootDir ''sub'') ''b.md'' = sep # join_sep (rs @ [''sub'', ''b.md''])"
    unfolding jsub using path_join_absolute[OF vsub v(2)] by simp
  have rsub: "path_relative rootDir (sep # join_sep (rs @ [''sub''])) = ''sub''"
    unfolding assms(2) using path_relative_absolute[OF assms(1), of "[''sub'']"] v by simp
  have ra: "path_relative rootDir (sep # join_sep (rs @ [''a.md''])) = ''a.md''"
    unfolding assms(2) using path_relative_absolute[OF assms(1), of "[''a.md'']"] v by simp
  have rb: "path_relative rootDir (sep # join_sep (rs @ [''sub'', ''b.md''])) = ''sub/b.md''"
    unfolding assms(2) using path_relative_absolute[OF assms(1), of "[''sub'', ''b.md'']"] v
    by (simp add: sep_def)
  let ?esub = "\<lparr>fullPath = sep # join_sep (rs @ [''sub'']), relativePath = ''sub'',
                 isDirectory = True, name = ''sub''\<rparr>"
  let ?eb = "\<lparr>fullPath = sep # join_sep (rs @ [''sub'', ''b.md'']), relativePath = ''sub/b.md'',
               isDirectory = False, name = ''b.md''\<rparr>"
  let ?ea = "\<lparr>fullPath = sep # join_sep (rs @ [''a.md'']), relativePath = ''a.md'',
               isDirectory = False, name = ''a.md''\<rparr>"
  have msub: "mk_info rootDir rootDir ?sub = ?esub"
    by (simp add: mk_info_def Let_def jsub rsub)
  have mb: "mk_info (path_join rootDir ''sub'') rootDir (RegularFile ''b.md'') = ?eb"
    by (simp add: mk_info_def Let_def jb rb)
  have ma: "mk_info rootDir rootDir (RegularFile ''a.md'') = ?ea"
    by (simp add: mk_info_def Let_def ja ra)
  have q: "endsWith (toLowerCase ''b.md'') ''.md''" "endsWith (toLowerCase ''a.md'') ''.md''"
    by code_simp+
  have sorted: "sort_by (compare_dirents lc) cs = [?sub, RegularFile ''a.md'']"
    using assms(3) by (auto simp: compare_dirents_def)
  have inner: "findMarkdownRecursive lc ?sub (path_join rootDir ''sub'') rootDir = Inr [?eb]"
    using q(1) by (simp add: mb)
  have scan: "findMarkdownRecursive lc (Directory n cs) rootDir rootDir = Inr [?esub, ?eb, ?ea]"
    using q(2) inner by (simp add: sorted msub ma)
  have d: "path_dirname ''sub/b.md'' = ''sub''" "path_dirname ''a.md'' = ''.''"
    by code_simp+
  have out: "assemble rf [?esub, ?eb, ?ea]
               = dir_header ''sub'' @ file_header ''b.md'' @ body_b @ separator
                 @ file_header ''a.md'' @ body_a @ separator"
    using assms(4,5)
    by (simp add: assemble_def initial_assembly_def process_entry_def add_directory_headers_def
          add_file_def Let_def d)
  from scan out show ?thesis by simp
qed

theorem subdirectory_before_root_file_witness:
  "list_all valid_segment [''r'']
   \<and> two_level_files (sep # join_sep ([''r''] @ [''a.md''])) = Some ''Alpha''
   \<and> two_level_files (sep # join_sep ([''r''] @ [''sub'', ''b.md''])) = Some ''Beta''
   \<and> (\<exists>infos. findMarkdownRecursive default_collation
                  (Directory ''r'' [RegularFile ''a.md'', Directory ''sub'' [RegularFile ''b.md'']])
                  ''/r'' ''/r'' = Inr infos
           \<and> map relativePath infos = [''sub'', ''sub/b.md'', ''a.md'']
           \<and> assemble two_level_files infos
               = dir_header ''sub'' @ file_header ''b.md'' @ ''Beta'' @ separator
                 @ file_header ''a.md'' @ ''Alpha'' @ separator)"
proof -
  have v: "\<forall>s\<in>set [''r'']. valid_segment s" by code_simp
  have r: "''/r'' = sep # join_sep [''r'']" by code_simp
  have c: "[RegularFile ''a.md'', Directory ''sub'' [RegularFile ''b.md'']]
             = [RegularFile ''a.md'', Directory ''sub'' [RegularFile ''b.md'']]
           \<or> [RegularFile ''a.md'', Directory ''sub'' [RegularFile ''b.md'']]
             = [Directory ''sub'' [RegularFile ''b.md''], RegularFile ''a.md'']"
    by simp
  have a: "two_level_files (sep # join_sep ([''r''] @ [''a.md''])) = Some ''Alpha''" by code_simp
  have b: "two_level_files (sep # join_sep ([''r''] @ [''sub'', ''b.md''])) = Some ''Beta''" by code_simp
  have v': "list_all valid_segment [''r'']" by code_simp
  from subdirectory_before_root_file [OF v r c a b, of default_collation "''r''"] v' a b
  show ?thesis by simp
qed

text \<open>
  Claim C3 as stated does not hold: the file of the root does not come first, since the
  scanner puts directories before files.
\<close>

theorem root_file_does_not_come_first:
  "findMarkdownRecursive default_collation two_level_tree ''/r'' ''/r'' = Inr two_level_entries
   \<and> assemble two_level_files two_level_entries
       = dir_header ''sub'' @ file_header ''b.md'' @ ''Beta'' @ separator
         @ file_header ''a.md'' @ ''Alpha'' @ separator
   \<and> assemble two_level_files two_level_entries
       \<noteq> file_header ''a.md'' @ ''Alpha'' @ separator
         @ dir_header ''sub'' @ file_header ''b.md'' @ ''Beta'' @ separator"
  by code_simp

subsection \<open>A document that cannot be read\<close>

lemma assemble_from_append:
  "assemble_from rf st (xs @ ys) = assemble_from rf (assemble_from rf st xs) ys"
  by (induction xs arbitrary: st) auto

lemma read_error_text_separator:
  "read_error_text n = ''*Error reading file '' @ n @ ''*'' @ separator"
  by (simp add: read_error_text_def separator_def)

lemma run_written:
  assumes "argv h = [arg]"
    and "stat h (resolve h arg) = Found node" and "dirent_isDirectory node"
    and "findMarkdownRecursive (localeCompare h) node (resolve h arg) (resolve h arg) = Inr infos"
    and "writable h (path_join (cwd h) OUTPUT_FILENAME)"
  shows "run h = Written (path_join (cwd h) OUTPUT_FILENAME) (assemble (readFile h) infos)"
  using assms by (simp add: run_def Let_def)

text \<open>
  Claim C7. When the content of a Document entry cannot be read, the run does not abort.
  After the directory headers and the file header of the entry, one fragment is appended:
  the placeholder line naming the file, followed by the separator that follows a body
  read with success. The pass goes on with the next entry, and the run writes the
  assembled output.
\<close>

theorem read_failure_is_local:
  assumes "argv h = [arg]"
    and "stat h (resolve h arg) = Found node" and "dirent_isDirectory node"
    and "findMarkdownRecursive (localeCompare h) node (resolve h arg) (resolve h arg)
           = Inr (pre @ info # post)"
    and "\<not> isDirectory info"
    and "readFile h (fullPath info) = None"
    and "writable h (path_join (cwd h) OUTPUT_FILENAME)"
  shows "process_entry (readFile h) (assemble_from (readFile h) initial_assembly pre) info
           = (add_directory_headers (assemble_from (readFile h) initial_assembly pre) info)
               \<lparr>outputContent :=
                  outputContent
                    (add_directory_headers (assemble_from (readFile h) initial_assembly pre) info)
                  @ [file_header (name info),
                     ''*Error reading file '' @ name info @ ''*'' @ separator]\<rparr>
         \<and> assemble_from (readFile h) initial_assembly (pre @ info # post)
             = assemble_from (readFile h)
                 (process_entry (readFile h) (assemble_from (readFile h) initial_assembly pre) info)
                 post
         \<and> run h = Written (path_join (cwd h) OUTPUT_FILENAME)
                     (assemble (readFile h) (pre @ info # post))"
proof -
  have "process_entry (readFile h) (assemble_from (readFile h) initial_assembly pre) info
           = (add_directory_headers (assemble_from (readFile h) initial_assembly pre) info)
               \<lparr>outputContent :=
                  outputContent
                    (add_directory_headers (assemble_from (readFile h) initial_assembly pre) info)
                  @ [file_header (name info),
                     ''*Error reading file '' @ name info @ ''*'' @ separator]\<rparr>"
    using assms(5,6)
    by (simp add: process_entry_def add_file_def Let_def read_error_text_separator)
  moreover have "assemble_from (readFile h) initial_assembly (pre @ info # post)
             = assemble_from (readFile h)
                 (process_entry (readFile h) (assemble_from (readFile h) initial_assembly pre) info)
                 post"
    by (simp add: assemble_from_append)
  moreover note run_written [OF assms(1-4) assms(7)]
  ultimately show ?thesis by blast
qed

theorem read_failure_is_local_witness:
  "run unreadable_host
     = Written ''/home/u/concatenated_output.md''
         (file_header ''a.md'' @ ''*Error reading file a.md*'' @ separator
          @ file_header ''b.md'' @ ''B'' @ separator)"
proof -
  let ?a = "\<lparr>fullPath = ''/r/a.md'', relativePath = ''a.md'', isDirectory = False, name = ''a.md''\<rparr>"
  let ?b = "\<lparr>fullPath = ''/r/b.md'', relativePath = ''b.md'', isDirectory = False, name = ''b.md''\<rparr>"
  have a: "argv unreadable_host = [''/r'']"
    by (simp add: unreadable_host_def)
  have s: "stat unreadable_host (resolve unreadable_host ''/r'')
             = Found (Directory ''r'' [RegularFile ''a.md'', RegularFile ''b.md''])"
    by (simp add: unreadable_host_def)
  have d: "dirent_isDirectory (Directory ''r'' [RegularFile ''a.md'', RegularFile ''b.md''])"
    by simp
  have scan0: "findMarkdownRecursive default_collation
                 (Directory ''r'' [RegularFile ''a.md'', RegularFile ''b.md'']) ''/r'' ''/r''
               = Inr ([] @ ?a # [?b])"
    by code_simp
  have scan: "findMarkdownRecursive (localeCompare unreadable_host)
                 (Directory ''r'' [RegularFile ''a.md'', RegularFile ''b.md''])
                 (resolve unreadable_host ''/r'') (resolve unreadable_host ''/r'')
               = Inr ([] @ ?a # [?b])"
    using scan0 by (simp add: unreadable_host_def)
  have nd: "\<not> isDirectory ?a" by simp
  have rd: "readFile unreadable_host (fullPath ?a) = None"
    by (simp add: unreadable_host_def)
  have w: "writable unreadable_host (path_join (cwd unreadable_host) OUTPUT_FILENAME)"
    by (simp add: unreadable_host_def)
  have p: "path_join (cwd unreadable_host) OUTPUT_FILENAME = ''/home/u/concatenated_output.md''"
    by code_simp
  have out: "assemble (map_of [(''/r/b.md'', ''B'')]) ([] @ ?a # [?b])
             = file_header ''a.md'' @ ''*Error reading file a.md*'' @ separator
               @ file_header ''b.md'' @ ''B'' @ separator"
    by code_simp
  have rf: "readFile unreadable_host = map_of [(''/r/b.md'', ''B'')]"
    by (simp add: unreadable_host_def)
  from read_failure_is_local [OF a s d scan nd rd w]
  have "run unreadable_host = Written (path_join (cwd unreadable_host) OUTPUT_FILENAME)
                     (assemble (readFile unreadable_host) ([] @ ?a # [?b]))"
    by blast
  then show ?thesis by (simp only: p rf out)
qed

section \<open>Properties of the run\<close>

text \<open>
  Claim C9. When the root directory holds no subdirectory and no qualifying document, the
  scanner returns the empty list, the assembler returns the empty string, and the run
  writes the output file with empty content and ends normally (the host accepting the
  write).
\<close>

theorem empty_scan_empty_output:
  assumes "argv h = [arg]"
    and "stat h (resolve h arg) = Found (Directory n cs)"
    and "\<forall>c\<in>set cs. \<not> dirent_isDirectory c
            \<and> \<not> (dirent_isFile c \<and> endsWith (toLowerCase (dirent_name c)) ''.md'')"
    and "writable h (path_join (cwd h) OUTPUT_FILENAME)"
  shows "findMarkdownRecursive (localeCompare h) (Directory n cs) (resolve h arg) (resolve h arg) = Inr []
         \<and> assemble (readFile h) [] = []
         \<and> run h = Written (path_join (cwd h) OUTPUT_FILENAME) []"
proof -
  have "\<forall>d\<in>set (sort_by (compare_dirents (localeCompare h)) cs). \<not> kept d"
    using assms(3) by (simp add: set_sort_by kept_def qualifies_def)
  then have scan: "findMarkdownRecursive (localeCompare h) (Directory n cs) (resolve h arg) (resolve h arg) = Inr []"
    by (simp add: for_dirents_skip)
  have asm: "assemble (readFile h) [] = []"
    by (simp add: assemble_def initial_assembly_def)
  have "run h = Written (path_join (cwd h) OUTPUT_FILENAME) []"
    using assms(1,2,4) scan asm by (simp add: run_def Let_def)
  with scan asm show ?thesis by simp
qed

theorem empty_scan_empty_output_witness:
  "argv empty_root_host = [''docs'']
   \<and> stat empty_root_host (resolve empty_root_host ''docs'')
       = Found (Directory ''docs'' [RegularFile ''todo.txt'', Special ''link.md''])
   \<and> list_all (\<lambda>c. \<not> dirent_isDirectory c
            \<and> \<not> (dirent_isFile c \<and> endsWith (toLowerCase (dirent_name c)) ''.md''))
         [RegularFile ''todo.txt'', Special ''link.md'']
   \<and> writable empty_root_host (path_join (cwd empty_root_host) OUTPUT_FILENAME)
   \<and> run empty_root_host = Written ''/home/u/concatenated_output.md'' []"
proof -
  have a: "argv empty_root_host = [''docs'']"
    by (simp add: empty_root_host_def)
  have s: "stat empty_root_host (resolve empty_root_host ''docs'')
       = Found (Directory ''docs'' [RegularFile ''todo.txt'', Special ''link.md''])"
    by (simp add: empty_root_host_def)
  have k: "\<forall>c\<in>set [RegularFile ''todo.txt'', Special ''link.md'']. \<not> dirent_isDirectory c
            \<and> \<not> (dirent_isFile c \<and> endsWith (toLowerCase (dirent_name c)) ''.md'')"
    by code_simp
  have w: "writable empty_root_host (path_join (cwd empty_root_host) OUTPUT_FILENAME)"
    by (simp add: empty_root_host_def)
  have p: "path_join (cwd empty_root_host) OUTPUT_FILENAME = ''/home/u/concatenated_output.md''"
    by code_simp
  have k': "list_all (\<lambda>c. \<not> dirent_isDirectory c
            \<and> \<not> (dirent_isFile c \<and> endsWith (toLowerCase (dirent_name c)) ''.md''))
         [RegularFile ''todo.txt'', Special ''link.md'']"
    using k by (simp only: list_all_iff)
  from empty_scan_empty_output [OF a s k w] a s k' w p show ?thesis
    by simp
qed

end
